theory Spec2Isabelle
  imports Main "HOL-Library.Word" "HOL-Library.Monad_Syntax"
begin

unbundle bit_operations_syntax

section \<open>Data model\<close>

type_synonym byte = "8 word"

text \<open>
  The result codes of the library (\<^verbatim>\<open>ykhsmauth_rc\<close>); only their identity
  matters here, not their numeric values.
\<close>

datatype ykhsmauth_rc =
    YKHSMAUTHR_SUCCESS
  | YKHSMAUTHR_MEMORY_ERROR
  | YKHSMAUTHR_PCSC_ERROR
  | YKHSMAUTHR_GENERIC_ERROR
  | YKHSMAUTHR_WRONG_PW
  | YKHSMAUTHR_INVALID_PARAMS
  | YKHSMAUTHR_ENTRY_NOT_FOUND
  | YKHSMAUTHR_STORAGE_FULL
  | YKHSMAUTHR_TOUCH_ERROR
  | YKHSMAUTHR_ENTRY_INVALID
  | YKHSMAUTHR_DATA_INVALID
  | YKHSMAUTHR_NOT_SUPPORTED

text \<open>
  \<^verbatim>\<open>ykhsmauth.c\<close> includes \<^verbatim>\<open>internal.h\<close> and \<^verbatim>\<open>ykhsmauth.h\<close>, which are
  not among the source files. Every macro of theirs that the code uses is a field of the
  record \<open>headers\<close>, and each function that uses one takes the record as its first
  argument: the instruction codes, the reset parameters, the TLV tags, the two algorithm
  codes, the protocol lengths and the status words. \<open>LABEL_SIZE\<close> stands for
  \<^verbatim>\<open>sizeof(list[element].label)\<close>, the size of the label array of a list entry.
\<close>

record headers =
  YKHSMAUTH_INS_PUT :: byte
  YKHSMAUTH_INS_DELETE :: byte
  YKHSMAUTH_INS_CALCULATE :: byte
  YKHSMAUTH_INS_GET_CHALLENGE :: byte
  YKHSMAUTH_INS_LIST :: byte
  YKHSMAUTH_INS_RESET :: byte
  YKHSMAUTH_INS_PUT_MGMKEY :: byte
  YKHSMAUTH_INS_GET_MGMKEY_RETRIES :: byte
  YKHSMAUTH_INS_GET_PUBKEY :: byte
  YKHSMAUTH_P1_RESET :: byte
  YKHSMAUTH_P2_RESET :: byte
  YKHSMAUTH_TAG_LABEL :: byte
  YKHSMAUTH_TAG_LABEL_LIST :: byte
  YKHSMAUTH_TAG_PW :: byte
  YKHSMAUTH_TAG_ALGO :: byte
  YKHSMAUTH_TAG_KEY_ENC :: byte
  YKHSMAUTH_TAG_KEY_MAC :: byte
  YKHSMAUTH_TAG_CONTEXT :: byte
  YKHSMAUTH_TAG_RESPONSE :: byte
  YKHSMAUTH_TAG_TOUCH :: byte
  YKHSMAUTH_TAG_MGMKEY :: byte
  YKHSMAUTH_TAG_PUBKEY :: byte
  YKHSMAUTH_TAG_PRIVKEY :: byte
  YKHSMAUTH_YUBICO_AES128_ALGO :: byte
  YKHSMAUTH_YUBICO_ECP256_ALGO :: byte
  YKHSMAUTH_YUBICO_ECP256_PRIVKEY_LEN :: nat
  YKHSMAUTH_YUBICO_ECP256_PUBKEY_LEN :: nat
  YKHSMAUTH_MIN_LABEL_LEN :: nat
  YKHSMAUTH_MAX_LABEL_LEN :: nat
  YKHSMAUTH_PW_LEN :: nat
  YKHSMAUTH_SESSION_KEY_LEN :: nat
  YKHSMAUTH_CARD_CRYPTO_LEN :: nat
  LABEL_SIZE :: nat
  SW_SUCCESS :: "16 word"
  SW_AUTHENTICATION_FAILED :: "16 word"
  SW_FILE_FULL :: "16 word"
  SW_FILE_NOT_FOUND :: "16 word"
  SW_WRONG_DATA :: "16 word"
  SW_MEMORY_ERROR :: "16 word"
  SW_SECURITY_STATUS_NOT_SATISFIED :: "16 word"
  SW_FILE_INVALID :: "16 word"
  SW_DATA_INVALID :: "16 word"
  SW_INS_NOT_SUPPORTED :: "16 word"

text \<open>
  One instance of the record, for the closed instances below. It follows the published
  constants of the YubiHSM Auth protocol (label of 1 to 64 bytes, 16-byte password and
  session keys, 8-byte card cryptogram, 65-byte uncompressed P-256 point, 32-byte private
  key, a label array of \<open>MAX_LABEL_LEN + 1\<close> bytes) and the ISO 7816-4 status words; it
  is not read from the source files. The comment at line 442 of the source
  (\<open>3 * KEY_LEN + HOST_CRYPTO_LEN + 2 = 58\<close>) agrees with the 16-byte session key. The
  theorems stated for every \<open>c\<close> do not depend on this instance.
\<close>

definition yubico_headers :: headers where
  "yubico_headers = \<lparr>
     YKHSMAUTH_INS_PUT = 0x01, YKHSMAUTH_INS_DELETE = 0x02, YKHSMAUTH_INS_CALCULATE = 0x03,
     YKHSMAUTH_INS_GET_CHALLENGE = 0x04, YKHSMAUTH_INS_LIST = 0x05, YKHSMAUTH_INS_RESET = 0x06,
     YKHSMAUTH_INS_PUT_MGMKEY = 0x08, YKHSMAUTH_INS_GET_MGMKEY_RETRIES = 0x09,
     YKHSMAUTH_INS_GET_PUBKEY = 0x0a,
     YKHSMAUTH_P1_RESET = 0xde, YKHSMAUTH_P2_RESET = 0xad,
     YKHSMAUTH_TAG_LABEL = 0x71, YKHSMAUTH_TAG_LABEL_LIST = 0x72, YKHSMAUTH_TAG_PW = 0x73,
     YKHSMAUTH_TAG_ALGO = 0x74, YKHSMAUTH_TAG_KEY_ENC = 0x75, YKHSMAUTH_TAG_KEY_MAC = 0x76,
     YKHSMAUTH_TAG_CONTEXT = 0x77, YKHSMAUTH_TAG_RESPONSE = 0x78, YKHSMAUTH_TAG_TOUCH = 0x7a,
     YKHSMAUTH_TAG_MGMKEY = 0x7b, YKHSMAUTH_TAG_PUBKEY = 0x7c, YKHSMAUTH_TAG_PRIVKEY = 0x7d,
     YKHSMAUTH_YUBICO_AES128_ALGO = 38, YKHSMAUTH_YUBICO_ECP256_ALGO = 39,
     YKHSMAUTH_YUBICO_ECP256_PRIVKEY_LEN = 32, YKHSMAUTH_YUBICO_ECP256_PUBKEY_LEN = 65,
     YKHSMAUTH_MIN_LABEL_LEN = 1, YKHSMAUTH_MAX_LABEL_LEN = 64,
     YKHSMAUTH_PW_LEN = 16, YKHSMAUTH_SESSION_KEY_LEN = 16, YKHSMAUTH_CARD_CRYPTO_LEN = 8,
     LABEL_SIZE = 65,
     SW_SUCCESS = 0x9000, SW_AUTHENTICATION_FAILED = 0x63c0, SW_FILE_FULL = 0x6a84,
     SW_FILE_NOT_FOUND = 0x6a82, SW_WRONG_DATA = 0x6a80, SW_MEMORY_ERROR = 0x6581,
     SW_SECURITY_STATUS_NOT_SATISFIED = 0x6982, SW_FILE_INVALID = 0x6983,
     SW_DATA_INVALID = 0x6984, SW_INS_NOT_SUPPORTED = 0x6d00 \<rparr>"

text \<open>
  Modelled from the spec: the command frame \<^verbatim>\<open>APDU\<close> is declared in
  \<^verbatim>\<open>internal.h\<close>. The spec gives its layout: class byte, instruction code, parameter 1,
  parameter 2, a one-byte data length and a data buffer capped at 255 bytes, 260 bytes
  in all when read as \<^verbatim>\<open>raw\<close>.
\<close>

record APDU =
  cla :: byte
  ins :: byte
  p1 :: byte
  p2 :: byte
  lc :: byte
  data :: "byte list"

definition APDU_DATA_LEN :: nat where
  "APDU_DATA_LEN = 255"

text \<open>The initialiser \<^verbatim>\<open>APDU apdu = {{0, ins, p1, p2, 0, {0}}}\<close>.\<close>

definition apdu_init :: "byte \<Rightarrow> byte \<Rightarrow> byte \<Rightarrow> APDU" where
  "apdu_init i q1 q2 =
     \<lparr>cla = 0, ins = i, p1 = q1, p2 = q2, lc = 0, data = replicate APDU_DATA_LEN 0\<rparr>"

text \<open>The union member \<^verbatim>\<open>raw\<close>: the five header bytes, then the data buffer.\<close>

definition apdu_raw :: "APDU \<Rightarrow> byte list" where
  "apdu_raw a = [cla a, ins a, p1 a, p2 a, lc a] @ data a"

section \<open>TLV codec\<close>

text \<open>
  \<^verbatim>\<open>encode_len\<close> (lines 29-43) writes one, two or three bytes at \<^verbatim>\<open>buf\<close> and
  returns how many. The model returns the bytes written, in order, and the return value.
  A store of a 16-bit value into a byte keeps its low eight bits (\<open>ucast\<close>).
\<close>

definition encode_len :: "16 word \<Rightarrow> byte list \<times> 16 word" where
  "encode_len len =
     (if len > 0xff then ([0x82, ucast (drop_bit 8 len), ucast len], 3)
      else if len > 0x7f then ([0x81, ucast len], 2)
      else ([ucast len], 1))"

text \<open>
  A write of \<open>bs\<close> into a buffer at offset \<open>off\<close>. C leaves a write past the end of the
  buffer undefined; the model answers \<open>None\<close> there.
\<close>

definition store_at :: "byte list \<Rightarrow> nat \<Rightarrow> byte list \<Rightarrow> byte list option" where
  "store_at buf off bs =
     (if off + length bs \<le> length buf
      then Some (take off buf @ bs @ drop (off + length bs) buf)
      else None)"

text \<open>
  \<^verbatim>\<open>add_tag\<close> (lines 45-55). \<open>dat\<close> is the memory at the source pointer; \<open>len\<close> and
  \<open>pad\<close> are the 16-bit parameters, whose sum is truncated to 16 bits on the way into
  \<^verbatim>\<open>encode_len\<close>. The function checks no bound: the result is \<open>None\<close> when a store
  leaves the data buffer of the frame (or the copy reads more than \<open>dat\<close> holds), and
  otherwise the frame with the field written at the old \<^verbatim>\<open>lc\<close> and \<^verbatim>\<open>lc\<close> moved
  past it. \<^verbatim>\<open>lc\<close> is a byte, so the pointer difference is stored modulo 256.
\<close>

definition add_tag :: "APDU \<Rightarrow> byte \<Rightarrow> byte list \<Rightarrow> 16 word \<Rightarrow> 16 word \<Rightarrow> APDU option" where
  "add_tag apdu tag dat len pad =
     (if length dat < unat len then None
      else do {
        let ptr0 = unat (lc apdu);
        d1 \<leftarrow> store_at (data apdu) ptr0 [tag];
        let ptr1 = ptr0 + 1;
        d2 \<leftarrow> store_at d1 ptr1 (fst (encode_len (len + pad)));
        let ptr2 = ptr1 + unat (snd (encode_len (len + pad)));
        d3 \<leftarrow> store_at d2 ptr2 (take (unat len) dat);
        let ptr3 = ptr2 + unat len;
        d4 \<leftarrow> store_at d3 ptr3 (replicate (unat pad) 0);
        let ptr4 = ptr3 + unat pad;
        Some (apdu\<lparr>data := d4, lc := of_nat ptr4\<rparr>)
      })"

text \<open>The part of the data buffer that \<^verbatim>\<open>lc\<close> covers: the fields appended so far.\<close>

definition apdu_fields :: "APDU \<Rightarrow> byte list" where
  "apdu_fields a = take (unat (lc a)) (data a)"

section \<open>Status translator\<close>

text \<open>
  \<^verbatim>\<open>translate_error\<close> (lines 64-89). \<open>retries\<close> tells whether the pointer is non-null;
  the second component of the result is the byte stored through it, if any. In C,
  \<^verbatim>\<open>sw & ~0xfff0\<close> is computed on \<^verbatim>\<open>int\<close> and keeps the low nibble of the 16-bit
  \<open>sw\<close>, which the store into \<^verbatim>\<open>uint8_t\<close> leaves as it is.
\<close>

definition translate_error :: "headers \<Rightarrow> 16 word \<Rightarrow> bool \<Rightarrow> ykhsmauth_rc \<times> byte option" where
  "translate_error c sw retries =
     (if sw AND 0xfff0 = SW_AUTHENTICATION_FAILED c
      then (YKHSMAUTHR_WRONG_PW, if retries then Some (ucast (sw AND NOT 0xfff0)) else None)
      else if sw = SW_FILE_FULL c then (YKHSMAUTHR_STORAGE_FULL, None)
      else if sw = SW_FILE_NOT_FOUND c then (YKHSMAUTHR_ENTRY_NOT_FOUND, None)
      else if sw = SW_WRONG_DATA c then (YKHSMAUTHR_INVALID_PARAMS, None)
      else if sw = SW_MEMORY_ERROR c then (YKHSMAUTHR_MEMORY_ERROR, None)
      else if sw = SW_SECURITY_STATUS_NOT_SATISFIED c then (YKHSMAUTHR_TOUCH_ERROR, None)
      else if sw = SW_FILE_INVALID c then (YKHSMAUTHR_ENTRY_INVALID, None)
      else if sw = SW_DATA_INVALID c then (YKHSMAUTHR_DATA_INVALID, None)
      else if sw = SW_INS_NOT_SUPPORTED c then (YKHSMAUTHR_NOT_SUPPORTED, None)
      else (YKHSMAUTHR_GENERIC_ERROR, None))"

section \<open>Session handle and transport\<close>

text \<open>
  Of \<^verbatim>\<open>ykhsmauth_state\<close> the operations use the verbosity and the card handle. The
  external call \<^verbatim>\<open>SCardTransmit(state->card, ...)\<close> is the field \<open>card\<close>: the answer
  of the reader and card to the bytes of a command, \<open>None\<close> when the call fails. What
  the code prints on \<^verbatim>\<open>stderr\<close> is left out.
\<close>

record ykhsmauth_state =
  verbose :: int
  card :: "byte list \<Rightarrow> byte list option"

text \<open>
  \<^verbatim>\<open>send_data\<close> (lines 148-183). \<open>recv_len\<close> is the size of the receive buffer on
  entry; an answer that does not fit is a failure of the transmit call. The result is the
  return code, the receive buffer as filled by the card (status bytes included), the new
  \<^verbatim>\<open>*recv_len\<close> and \<^verbatim>\<open>*sw\<close>.
\<close>

definition send_data ::
  "ykhsmauth_state \<Rightarrow> APDU \<Rightarrow> nat \<Rightarrow> ykhsmauth_rc \<times> byte list \<times> nat \<times> 16 word" where
  "send_data state apdu recv_len =
     (let send_len = unat (lc apdu) + 5 in
      case card state (take send_len (apdu_raw apdu)) of
        None \<Rightarrow> (YKHSMAUTHR_PCSC_ERROR, [], recv_len, 0)
      | Some resp \<Rightarrow>
          if length resp > recv_len then (YKHSMAUTHR_PCSC_ERROR, [], recv_len, 0)
          else if length resp \<ge> 2
          then (YKHSMAUTHR_SUCCESS, resp, length resp - 2,
                push_bit 8 (ucast (resp ! (length resp - 2))) OR ucast (resp ! (length resp - 1)))
          else (YKHSMAUTHR_SUCCESS, resp, length resp, 0))"

text \<open>The bytes handed to the transmit call for a frame.\<close>

definition wire_bytes :: "APDU \<Rightarrow> byte list" where
  "wire_bytes apdu = take (unat (lc apdu) + 5) (apdu_raw apdu)"

section \<open>Credential protocol operations\<close>

text \<open>
  Conventions. A pointer argument is an \<open>option\<close>: \<open>None\<close> is \<^verbatim>\<open>NULL\<close>, \<open>Some xs\<close>
  the memory it points to; a \<^verbatim>\<open>size_t\<close> length is a \<open>nat\<close> of its own, as in the C
  signature. A label is the bytes of the C string before its terminator, so
  \<^verbatim>\<open>strlen\<close> is \<open>length\<close>. An output pointer is a \<open>bool\<close> (non-null) where only
  that matters. An operation that appends fields returns an \<open>option\<close>: \<open>None\<close> is the
  undefined behaviour of an \<^verbatim>\<open>add_tag\<close> that left the frame. The field \<open>sent\<close> of a
  result lists the frames given to the transport, in order.
\<close>

record result =
  rc :: ykhsmauth_rc
  sent :: "byte list list"

record retries_result = result +
  retries_out :: "byte option"

record calculate_result = retries_result +
  key_s_enc_out :: "byte list option"
  key_s_mac_out :: "byte list option"
  key_s_rmac_out :: "byte list option"

record blob_result = result +
  blob_out :: "byte list option"
  blob_len_out :: "nat option"

text \<open>
  The test on the label shared by five operations:
  \<^verbatim>\<open>label == NULL || strlen(label) < MIN_LABEL_LEN || strlen(label) > MAX_LABEL_LEN\<close>.
\<close>

definition label_invalid :: "headers \<Rightarrow> byte list option \<Rightarrow> bool" where
  "label_invalid c label =
     (case label of
        None \<Rightarrow> True
      | Some l \<Rightarrow> length l < YKHSMAUTH_MIN_LABEL_LEN c \<or> length l > YKHSMAUTH_MAX_LABEL_LEN c)"

subsection \<open>Store credential\<close>

text \<open>The argument check of \<^verbatim>\<open>ykhsmauth_put\<close> (lines 364-370).\<close>

definition put_invalid ::
  "headers \<Rightarrow> ykhsmauth_state option \<Rightarrow> byte list option \<Rightarrow> nat \<Rightarrow> byte list option \<Rightarrow>
   byte list option \<Rightarrow> nat \<Rightarrow> byte list option \<Rightarrow> nat \<Rightarrow> bool" where
  "put_invalid c state mgmkey mgmkey_len label key key_len cpw cpw_len =
     (state = None \<or> mgmkey = None \<or> mgmkey_len \<noteq> YKHSMAUTH_PW_LEN c \<or>
      label_invalid c label \<or> key = None \<or>
      key_len > YKHSMAUTH_YUBICO_ECP256_PRIVKEY_LEN c \<or> cpw = None \<or>
      cpw_len > YKHSMAUTH_PW_LEN c)"

text \<open>
  The fields of \<^verbatim>\<open>ykhsmauth_put\<close> (lines 372-384), appended once the check has
  passed. \<^verbatim>\<open>key + key_len / 2\<close> is the key memory from that offset on. Every length
  is cut to 16 bits by the call.
\<close>

definition put_apdu ::
  "headers \<Rightarrow> byte list \<Rightarrow> nat \<Rightarrow> byte list \<Rightarrow> byte \<Rightarrow> byte list \<Rightarrow> nat \<Rightarrow>
   byte list \<Rightarrow> nat \<Rightarrow> byte \<Rightarrow> APDU option" where
  "put_apdu c mgmkey mgmkey_len label algo key key_len cpw cpw_len touch_policy = do {
     a1 \<leftarrow> add_tag (apdu_init (YKHSMAUTH_INS_PUT c) 0 0)
             (YKHSMAUTH_TAG_MGMKEY c) mgmkey (of_nat mgmkey_len) 0;
     a2 \<leftarrow> add_tag a1 (YKHSMAUTH_TAG_LABEL c) label (of_nat (length label)) 0;
     a3 \<leftarrow> add_tag a2 (YKHSMAUTH_TAG_ALGO c) [algo] 1 0;
     a4 \<leftarrow> (if algo = YKHSMAUTH_YUBICO_AES128_ALGO c then do {
              b \<leftarrow> add_tag a3 (YKHSMAUTH_TAG_KEY_ENC c) key (of_nat (key_len div 2)) 0;
              add_tag b (YKHSMAUTH_TAG_KEY_MAC c) (drop (key_len div 2) key)
                (of_nat (key_len div 2)) 0 }
            else if algo = YKHSMAUTH_YUBICO_ECP256_ALGO c
            then add_tag a3 (YKHSMAUTH_TAG_PRIVKEY c) key (of_nat key_len) 0
            else Some a3);
     a5 \<leftarrow> add_tag a4 (YKHSMAUTH_TAG_PW c) cpw (of_nat cpw_len)
             (of_nat (YKHSMAUTH_PW_LEN c - cpw_len));
     add_tag a5 (YKHSMAUTH_TAG_TOUCH c) [touch_policy] 1 0 }"

text \<open>
  The exchange and the reading of the status that close \<^verbatim>\<open>ykhsmauth_put\<close>,
  \<^verbatim>\<open>ykhsmauth_delete\<close> and \<^verbatim>\<open>ykhsmauth_put_mgmkey\<close> alike (lines 386-397, 418-429,
  720-731), with a 256-byte receive buffer.
\<close>

definition send_and_check :: "headers \<Rightarrow> ykhsmauth_state \<Rightarrow> APDU \<Rightarrow> bool \<Rightarrow> retries_result" where
  "send_and_check c st apdu retries =
     (case send_data st apdu 256 of (r, dat, recv_len, sw) \<Rightarrow>
        if r \<noteq> YKHSMAUTHR_SUCCESS
        then \<lparr>rc = r, sent = [wire_bytes apdu], retries_out = None\<rparr>
        else if sw \<noteq> SW_SUCCESS c
        then \<lparr>rc = fst (translate_error c sw retries), sent = [wire_bytes apdu],
              retries_out = snd (translate_error c sw retries)\<rparr>
        else \<lparr>rc = YKHSMAUTHR_SUCCESS, sent = [wire_bytes apdu], retries_out = None\<rparr>)"

definition invalid_params :: retries_result where
  "invalid_params = \<lparr>rc = YKHSMAUTHR_INVALID_PARAMS, sent = [], retries_out = None\<rparr>"

text \<open>\<^verbatim>\<open>ykhsmauth_put\<close> (lines 354-398).\<close>

definition ykhsmauth_put ::
  "headers \<Rightarrow> ykhsmauth_state option \<Rightarrow> byte list option \<Rightarrow> nat \<Rightarrow> byte list option \<Rightarrow>
   byte \<Rightarrow> byte list option \<Rightarrow> nat \<Rightarrow> byte list option \<Rightarrow> nat \<Rightarrow> byte \<Rightarrow> bool \<Rightarrow>
   retries_result option" where
  "ykhsmauth_put c state mgmkey mgmkey_len label algo key key_len cpw cpw_len
     touch_policy retries =
     (if put_invalid c state mgmkey mgmkey_len label key key_len cpw cpw_len
      then Some invalid_params
      else case (state, mgmkey, label, key, cpw) of
        (Some st, Some mk, Some lb, Some k, Some pw) \<Rightarrow> do {
          apdu \<leftarrow> put_apdu c mk mgmkey_len lb algo k key_len pw cpw_len touch_policy;
          Some (send_and_check c st apdu retries) }
      | _ \<Rightarrow> Some invalid_params)"

subsection \<open>Delete credential\<close>

text \<open>\<^verbatim>\<open>ykhsmauth_delete\<close> (lines 400-430): its check and its two fields.\<close>

definition delete_invalid ::
  "headers \<Rightarrow> ykhsmauth_state option \<Rightarrow> byte list option \<Rightarrow> nat \<Rightarrow> byte list option \<Rightarrow> bool" where
  "delete_invalid c state mgmkey mgmkey_len label =
     (state = None \<or> mgmkey = None \<or> mgmkey_len \<noteq> YKHSMAUTH_PW_LEN c \<or>
      label_invalid c label)"

definition delete_apdu :: "headers \<Rightarrow> byte list \<Rightarrow> nat \<Rightarrow> byte list \<Rightarrow> APDU option" where
  "delete_apdu c mgmkey mgmkey_len label = do {
     a1 \<leftarrow> add_tag (apdu_init (YKHSMAUTH_INS_DELETE c) 0 0)
             (YKHSMAUTH_TAG_MGMKEY c) mgmkey (of_nat mgmkey_len) 0;
     add_tag a1 (YKHSMAUTH_TAG_LABEL c) label (of_nat (length label)) 0 }"

definition ykhsmauth_delete ::
  "headers \<Rightarrow> ykhsmauth_state option \<Rightarrow> byte list option \<Rightarrow> nat \<Rightarrow> byte list option \<Rightarrow>
   bool \<Rightarrow> retries_result option" where
  "ykhsmauth_delete c state mgmkey mgmkey_len label retries =
     (if delete_invalid c state mgmkey mgmkey_len label then Some invalid_params
      else case (state, mgmkey, label) of
        (Some st, Some mk, Some lb) \<Rightarrow> do {
          apdu \<leftarrow> delete_apdu c mk mgmkey_len lb;
          Some (send_and_check c st apdu retries) }
      | _ \<Rightarrow> Some invalid_params)"

subsection \<open>Put management key\<close>

text \<open>\<^verbatim>\<open>ykhsmauth_put_mgmkey\<close> (lines 704-732).\<close>

definition put_mgmkey_invalid ::
  "headers \<Rightarrow> ykhsmauth_state option \<Rightarrow> byte list option \<Rightarrow> nat \<Rightarrow> byte list option \<Rightarrow>
   nat \<Rightarrow> bool" where
  "put_mgmkey_invalid c state mgmkey mgmkey_len new_mgmkey new_mgmkey_len =
     (state = None \<or> mgmkey = None \<or> mgmkey_len \<noteq> YKHSMAUTH_PW_LEN c \<or>
      new_mgmkey = None \<or> new_mgmkey_len \<noteq> YKHSMAUTH_PW_LEN c)"

definition put_mgmkey_apdu :: "headers \<Rightarrow> byte list \<Rightarrow> nat \<Rightarrow> byte list \<Rightarrow> nat \<Rightarrow> APDU option" where
  "put_mgmkey_apdu c mgmkey mgmkey_len new_mgmkey new_mgmkey_len = do {
     a1 \<leftarrow> add_tag (apdu_init (YKHSMAUTH_INS_PUT_MGMKEY c) 0 0)
             (YKHSMAUTH_TAG_MGMKEY c) mgmkey (of_nat mgmkey_len) 0;
     add_tag a1 (YKHSMAUTH_TAG_MGMKEY c) new_mgmkey (of_nat new_mgmkey_len) 0 }"

definition ykhsmauth_put_mgmkey ::
  "headers \<Rightarrow> ykhsmauth_state option \<Rightarrow> byte list option \<Rightarrow> nat \<Rightarrow> byte list option \<Rightarrow>
   nat \<Rightarrow> bool \<Rightarrow> retries_result option" where
  "ykhsmauth_put_mgmkey c state mgmkey mgmkey_len new_mgmkey new_mgmkey_len retries =
     (if put_mgmkey_invalid c state mgmkey mgmkey_len new_mgmkey new_mgmkey_len
      then Some invalid_params
      else case (state, mgmkey, new_mgmkey) of
        (Some st, Some mk, Some nk) \<Rightarrow> do {
          apdu \<leftarrow> put_mgmkey_apdu c mk mgmkey_len nk new_mgmkey_len;
          Some (send_and_check c st apdu retries) }
      | _ \<Rightarrow> Some invalid_params)"

subsection \<open>Derive session keys\<close>

text \<open>
  The argument check of \<^verbatim>\<open>ykhsmauth_calculate\<close> (lines 448-459). The card public key
  and the card cryptogram may be null; only their lengths are checked.
\<close>

definition calculate_invalid ::
  "headers \<Rightarrow> ykhsmauth_state option \<Rightarrow> byte list option \<Rightarrow> byte list option \<Rightarrow> nat \<Rightarrow>
   nat \<Rightarrow> nat \<Rightarrow> byte list option \<Rightarrow> nat \<Rightarrow> bool \<Rightarrow> nat \<Rightarrow> bool \<Rightarrow> nat \<Rightarrow> bool \<Rightarrow> nat \<Rightarrow>
   bool" where
  "calculate_invalid c state label context context_len card_pubkey_len card_crypto_len
     pw pw_len key_s_enc key_s_enc_len key_s_mac key_s_mac_len key_s_rmac key_s_rmac_len =
     (state = None \<or> label_invalid c label \<or> context = None \<or>
      context_len > 2 * YKHSMAUTH_YUBICO_ECP256_PUBKEY_LEN c \<or>
      card_pubkey_len > YKHSMAUTH_YUBICO_ECP256_PUBKEY_LEN c \<or>
      card_crypto_len > YKHSMAUTH_SESSION_KEY_LEN c \<or> pw = None \<or>
      pw_len > YKHSMAUTH_PW_LEN c \<or> \<not> key_s_enc \<or>
      key_s_enc_len \<noteq> YKHSMAUTH_SESSION_KEY_LEN c \<or> \<not> key_s_mac \<or>
      key_s_mac_len \<noteq> YKHSMAUTH_SESSION_KEY_LEN c \<or> \<not> key_s_rmac \<or>
      key_s_rmac_len \<noteq> YKHSMAUTH_SESSION_KEY_LEN c)"

text \<open>The fields of \<^verbatim>\<open>ykhsmauth_calculate\<close> (lines 461-473).\<close>

definition calculate_apdu ::
  "headers \<Rightarrow> byte list \<Rightarrow> byte list \<Rightarrow> nat \<Rightarrow> byte list option \<Rightarrow> nat \<Rightarrow>
   byte list option \<Rightarrow> nat \<Rightarrow> byte list \<Rightarrow> nat \<Rightarrow> APDU option" where
  "calculate_apdu c label context context_len card_pubkey card_pubkey_len
     card_crypto card_crypto_len pw pw_len = do {
     a1 \<leftarrow> add_tag (apdu_init (YKHSMAUTH_INS_CALCULATE c) 0 0)
             (YKHSMAUTH_TAG_LABEL c) label (of_nat (length label)) 0;
     a2 \<leftarrow> add_tag a1 (YKHSMAUTH_TAG_CONTEXT c) context (of_nat context_len) 0;
     a3 \<leftarrow> (case card_pubkey of
              Some pk \<Rightarrow>
                if card_pubkey_len \<noteq> 0
                then add_tag a2 (YKHSMAUTH_TAG_PUBKEY c) pk (of_nat card_pubkey_len) 0
                else Some a2
            | None \<Rightarrow> Some a2);
     a4 \<leftarrow> (case card_crypto of
              Some cc \<Rightarrow>
                if card_crypto_len > YKHSMAUTH_CARD_CRYPTO_LEN c
                then add_tag a3 (YKHSMAUTH_TAG_RESPONSE c) cc (of_nat card_crypto_len) 0
                else Some a3
            | None \<Rightarrow> Some a3);
     add_tag a4 (YKHSMAUTH_TAG_PW c) pw (of_nat pw_len)
       (of_nat (YKHSMAUTH_PW_LEN c - pw_len)) }"

text \<open>
  The exchange and the reading of the answer in \<^verbatim>\<open>ykhsmauth_calculate\<close> (lines
  475-504). The three \<^verbatim>\<open>memcpy\<close> calls appear as the bytes copied into each key
  buffer.
\<close>

definition calculate_finish ::
  "headers \<Rightarrow> ykhsmauth_state \<Rightarrow> APDU \<Rightarrow> bool \<Rightarrow> calculate_result" where
  "calculate_finish c st apdu retries =
     (case send_data st apdu 256 of (r, dat, recv_len, sw) \<Rightarrow>
        if r \<noteq> YKHSMAUTHR_SUCCESS
        then \<lparr>rc = r, sent = [wire_bytes apdu], retries_out = None,
              key_s_enc_out = None, key_s_mac_out = None, key_s_rmac_out = None\<rparr>
        else if sw \<noteq> SW_SUCCESS c
        then \<lparr>rc = fst (translate_error c sw retries), sent = [wire_bytes apdu],
              retries_out = snd (translate_error c sw retries),
              key_s_enc_out = None, key_s_mac_out = None, key_s_rmac_out = None\<rparr>
        else if recv_len \<noteq> 3 * YKHSMAUTH_SESSION_KEY_LEN c
        then \<lparr>rc = YKHSMAUTHR_GENERIC_ERROR, sent = [wire_bytes apdu], retries_out = None,
              key_s_enc_out = None, key_s_mac_out = None, key_s_rmac_out = None\<rparr>
        else \<lparr>rc = YKHSMAUTHR_SUCCESS, sent = [wire_bytes apdu], retries_out = None,
              key_s_enc_out = Some (take (YKHSMAUTH_SESSION_KEY_LEN c) dat),
              key_s_mac_out = Some (take (YKHSMAUTH_SESSION_KEY_LEN c)
                (drop (YKHSMAUTH_SESSION_KEY_LEN c) dat)),
              key_s_rmac_out = Some (take (YKHSMAUTH_SESSION_KEY_LEN c)
                (drop (YKHSMAUTH_SESSION_KEY_LEN c + YKHSMAUTH_SESSION_KEY_LEN c) dat))\<rparr>)"

definition calculate_invalid_params :: calculate_result where
  "calculate_invalid_params =
     \<lparr>rc = YKHSMAUTHR_INVALID_PARAMS, sent = [], retries_out = None,
      key_s_enc_out = None, key_s_mac_out = None, key_s_rmac_out = None\<rparr>"

text \<open>\<^verbatim>\<open>ykhsmauth_calculate\<close> (lines 432-505).\<close>

definition ykhsmauth_calculate ::
  "headers \<Rightarrow> ykhsmauth_state option \<Rightarrow> byte list option \<Rightarrow> byte list option \<Rightarrow> nat \<Rightarrow>
   byte list option \<Rightarrow> nat \<Rightarrow> byte list option \<Rightarrow> nat \<Rightarrow> byte list option \<Rightarrow> nat \<Rightarrow>
   bool \<Rightarrow> nat \<Rightarrow> bool \<Rightarrow> nat \<Rightarrow> bool \<Rightarrow> nat \<Rightarrow> bool \<Rightarrow> calculate_result option" where
  "ykhsmauth_calculate c state label context context_len card_pubkey card_pubkey_len
     card_crypto card_crypto_len pw pw_len key_s_enc key_s_enc_len key_s_mac key_s_mac_len
     key_s_rmac key_s_rmac_len retries =
     (if calculate_invalid c state label context context_len card_pubkey_len card_crypto_len
           pw pw_len key_s_enc key_s_enc_len key_s_mac key_s_mac_len key_s_rmac key_s_rmac_len
      then Some calculate_invalid_params
      else case (state, label, context, pw) of
        (Some st, Some lb, Some ctx, Some p) \<Rightarrow> do {
          apdu \<leftarrow> calculate_apdu c lb ctx context_len card_pubkey card_pubkey_len
                    card_crypto card_crypto_len p pw_len;
          Some (calculate_finish c st apdu retries) }
      | _ \<Rightarrow> Some calculate_invalid_params)"

subsection \<open>Factory reset\<close>

text \<open>
  \<^verbatim>\<open>ykhsmauth_reset\<close> (lines 507-530). The status word is tested first, whatever
  \<^verbatim>\<open>send_data\<close> returned; \<^verbatim>\<open>res\<close> is returned only when the status is success.
\<close>

definition ykhsmauth_reset :: "headers \<Rightarrow> ykhsmauth_state option \<Rightarrow> result" where
  "ykhsmauth_reset c state =
     (case state of
        None \<Rightarrow> \<lparr>rc = YKHSMAUTHR_INVALID_PARAMS, sent = []\<rparr>
      | Some st \<Rightarrow>
          (case send_data st
                  (apdu_init (YKHSMAUTH_INS_RESET c) (YKHSMAUTH_P1_RESET c) (YKHSMAUTH_P2_RESET c))
                  256 of
             (res, dat, recv_len, sw) \<Rightarrow>
               if sw \<noteq> SW_SUCCESS c
               then \<lparr>rc = fst (translate_error c sw False),
                     sent = [wire_bytes (apdu_init (YKHSMAUTH_INS_RESET c)
                                (YKHSMAUTH_P1_RESET c) (YKHSMAUTH_P2_RESET c))]\<rparr>
               else \<lparr>rc = res,
                     sent = [wire_bytes (apdu_init (YKHSMAUTH_INS_RESET c)
                                (YKHSMAUTH_P1_RESET c) (YKHSMAUTH_P2_RESET c))]\<rparr>))"

subsection \<open>Get challenge, get public key\<close>

text \<open>
  The argument check of \<^verbatim>\<open>ykhsmauth_get_challenge\<close> (lines 614-620) and of
  \<^verbatim>\<open>ykhsmauth_get_pubkey\<close> (lines 650-655), which is the same. \<open>dst\<close> tells whether
  the destination pointer is non-null; \<open>dst_len\<close> is the in/out length, \<open>None\<close> when
  its pointer is null.
\<close>

definition get_blob_invalid ::
  "headers \<Rightarrow> ykhsmauth_state option \<Rightarrow> byte list option \<Rightarrow> bool \<Rightarrow> nat option \<Rightarrow> bool" where
  "get_blob_invalid c state label dst dst_len =
     (state = None \<or> label_invalid c label \<or> dst = False \<or>
      (case dst_len of
         None \<Rightarrow> True
       | Some n \<Rightarrow> n < YKHSMAUTH_YUBICO_ECP256_PUBKEY_LEN c))"

text \<open>
  The body the two operations share but for the instruction code (lines 622-638,
  657-673): one label field, the exchange, then \<^verbatim>\<open>*dst_len = recv_len\<close> and
  \<^verbatim>\<open>memcpy(dst, data, recv_len)\<close>. \<open>blob_out\<close> is the bytes the \<^verbatim>\<open>memcpy\<close> writes
  at the destination, \<open>blob_len_out\<close> the length stored.
\<close>

definition get_blob ::
  "headers \<Rightarrow> byte \<Rightarrow> ykhsmauth_state option \<Rightarrow> byte list option \<Rightarrow> bool \<Rightarrow> nat option \<Rightarrow>
   blob_result option" where
  "get_blob c i state label dst dst_len =
     (if get_blob_invalid c state label dst dst_len
      then Some \<lparr>rc = YKHSMAUTHR_INVALID_PARAMS, sent = [], blob_out = None, blob_len_out = None\<rparr>
      else case (state, label) of
        (Some st, Some lb) \<Rightarrow> do {
          apdu \<leftarrow> add_tag (apdu_init i 0 0) (YKHSMAUTH_TAG_LABEL c) lb (of_nat (length lb)) 0;
          Some (case send_data st apdu 256 of (r, dat, recv_len, sw) \<Rightarrow>
            if r \<noteq> YKHSMAUTHR_SUCCESS
            then \<lparr>rc = r, sent = [wire_bytes apdu], blob_out = None, blob_len_out = None\<rparr>
            else if sw \<noteq> SW_SUCCESS c
            then \<lparr>rc = fst (translate_error c sw False), sent = [wire_bytes apdu],
                  blob_out = None, blob_len_out = None\<rparr>
            else \<lparr>rc = YKHSMAUTHR_SUCCESS, sent = [wire_bytes apdu],
                  blob_out = Some (take recv_len dat), blob_len_out = Some recv_len\<rparr>) }
      | _ \<Rightarrow> Some \<lparr>rc = YKHSMAUTHR_INVALID_PARAMS, sent = [], blob_out = None,
                    blob_len_out = None\<rparr>)"

definition ykhsmauth_get_challenge ::
  "headers \<Rightarrow> ykhsmauth_state option \<Rightarrow> byte list option \<Rightarrow> bool \<Rightarrow> nat option \<Rightarrow>
   blob_result option" where
  "ykhsmauth_get_challenge c state label challenge challenge_len =
     get_blob c (YKHSMAUTH_INS_GET_CHALLENGE c) state label challenge challenge_len"

definition ykhsmauth_get_pubkey ::
  "headers \<Rightarrow> ykhsmauth_state option \<Rightarrow> byte list option \<Rightarrow> bool \<Rightarrow> nat option \<Rightarrow>
   blob_result option" where
  "ykhsmauth_get_pubkey c state label pubkey pubkey_len =
     get_blob c (YKHSMAUTH_INS_GET_PUBKEY c) state label pubkey pubkey_len"

subsection \<open>Management key retries\<close>

text \<open>
  \<^verbatim>\<open>ykhsmauth_get_mgmkey_retries\<close> (lines 676-702). On success it stores
  \<^verbatim>\<open>data[0]\<close>; with an empty receive buffer that byte was never written by the card,
  and the model stores nothing.
\<close>

definition ykhsmauth_get_mgmkey_retries ::
  "headers \<Rightarrow> ykhsmauth_state option \<Rightarrow> bool \<Rightarrow> retries_result" where
  "ykhsmauth_get_mgmkey_retries c state retries =
     (case state of
        None \<Rightarrow> invalid_params
      | Some st \<Rightarrow>
          if retries = False then invalid_params
          else (case send_data st (apdu_init (YKHSMAUTH_INS_GET_MGMKEY_RETRIES c) 0 0) 256 of
            (r, dat, recv_len, sw) \<Rightarrow>
              if r \<noteq> YKHSMAUTHR_SUCCESS
              then \<lparr>rc = r,
                    sent = [wire_bytes (apdu_init (YKHSMAUTH_INS_GET_MGMKEY_RETRIES c) 0 0)],
                    retries_out = None\<rparr>
              else if sw \<noteq> SW_SUCCESS c
              then \<lparr>rc = fst (translate_error c sw False),
                    sent = [wire_bytes (apdu_init (YKHSMAUTH_INS_GET_MGMKEY_RETRIES c) 0 0)],
                    retries_out = None\<rparr>
              else \<lparr>rc = YKHSMAUTHR_SUCCESS,
                    sent = [wire_bytes (apdu_init (YKHSMAUTH_INS_GET_MGMKEY_RETRIES c) 0 0)],
                    retries_out = (case dat of [] \<Rightarrow> None | b # _ \<Rightarrow> Some b)\<rparr>))"

subsection \<open>List credentials\<close>

text \<open>
  An entry of the caller's array, \<^verbatim>\<open>ykhsmauth_list_entry\<close>: fields \<^verbatim>\<open>algo\<close>,
  \<^verbatim>\<open>touch\<close>, \<^verbatim>\<open>label\<close> and \<^verbatim>\<open>ctr\<close> (prefixed here, since the plain names are
  arguments of other operations). The label is an array of \<open>LABEL_SIZE\<close> bytes. The
  caller's array is a store from slot index to entry, so that a write to any slot can be
  told.
\<close>

record ykhsmauth_list_entry =
  entry_algo :: byte
  entry_touch :: byte
  entry_label :: "byte list"
  entry_ctr :: byte

record list_result = result +
  list_out :: "(nat \<Rightarrow> ykhsmauth_list_entry) option"
  list_items_out :: "nat option"

text \<open>
  The loop of \<^verbatim>\<open>ykhsmauth_list_keys\<close> (lines 561-593), from the state \<open>(i, element)\<close>
  and the array so far. \<open>list_items\<close> is \<^verbatim>\<open>*list_items\<close>, \<open>list\<close> the array
  (\<open>None\<close> for a null pointer). The tag is read at \<open>i\<close>, the length byte at \<open>i + 1\<close>,
  the algorithm and touch bytes at \<open>i + 2\<close> and \<open>i + 3\<close>, the label from \<open>i + 4\<close> on
  and the counter right after it. The result is \<open>Inl\<close> of the code returned from inside
  the loop, or \<open>Inr (i, element)\<close> when the loop condition fails, with the array.
\<close>

function list_loop ::
  "headers \<Rightarrow> byte list \<Rightarrow> nat \<Rightarrow> nat \<Rightarrow> (nat \<Rightarrow> ykhsmauth_list_entry) option \<Rightarrow> nat \<Rightarrow> nat \<Rightarrow>
   (ykhsmauth_rc + nat \<times> nat) \<times> (nat \<Rightarrow> ykhsmauth_list_entry) option" where
  "list_loop c dat recv_len list_items list i element =
     (if i + 1 < recv_len then
        if dat ! i = YKHSMAUTH_TAG_LABEL_LIST c then
          (case list of
             Some arr \<Rightarrow>
               if element \<ge> list_items then (Inl YKHSMAUTHR_MEMORY_ERROR, list)
               else if i + 2 + unat (dat ! (i + 1)) > recv_len \<or> unat (dat ! (i + 1)) < 3 \<or>
                       unat (dat ! (i + 1)) - 3 > LABEL_SIZE c
               then (Inl YKHSMAUTHR_GENERIC_ERROR, list)
               else list_loop c dat recv_len list_items
                      (Some (arr(element :=
                         \<lparr>entry_algo = dat ! (i + 2), entry_touch = dat ! (i + 3),
                          entry_label = take (unat (dat ! (i + 1)) - 3) (drop (i + 4) dat) @
                                  replicate (LABEL_SIZE c - (unat (dat ! (i + 1)) - 3)) 0,
                          entry_ctr = dat ! (i + 4 + (unat (dat ! (i + 1)) - 3))\<rparr>)))
                      (i + 4 + (unat (dat ! (i + 1)) - 3) + 1) (element + 1)
           | None \<Rightarrow>
               list_loop c dat recv_len list_items None (i + 2 + unat (dat ! (i + 1)))
                 (element + 1))
        else (Inl YKHSMAUTHR_GENERIC_ERROR, list)
      else (Inr (i, element), list))"
  by pat_completeness auto
termination
  by (relation "measure (\<lambda>(c, dat, recv_len, list_items, list, i, element). recv_len - i)") auto

declare list_loop.simps [simp del]

text \<open>
  \<^verbatim>\<open>ykhsmauth_list_keys\<close> (lines 532-602), with its 1024-byte receive buffer.
  \<open>list_out\<close> is the caller's array after the call, \<open>list_items_out\<close> the count stored
  through \<^verbatim>\<open>list_items\<close> (line 595), \<open>None\<close> when the function returns before.
\<close>

definition ykhsmauth_list_keys ::
  "headers \<Rightarrow> ykhsmauth_state option \<Rightarrow> (nat \<Rightarrow> ykhsmauth_list_entry) option \<Rightarrow> nat option \<Rightarrow>
   list_result" where
  "ykhsmauth_list_keys c state list list_items =
     (case (state, list_items) of
        (Some st, Some n) \<Rightarrow>
          (case send_data st (apdu_init (YKHSMAUTH_INS_LIST c) 0 0) 1024 of
             (r, dat, recv_len, sw) \<Rightarrow>
               if r \<noteq> YKHSMAUTHR_SUCCESS
               then \<lparr>rc = r, sent = [wire_bytes (apdu_init (YKHSMAUTH_INS_LIST c) 0 0)],
                     list_out = list, list_items_out = None\<rparr>
               else if sw \<noteq> SW_SUCCESS c
               then \<lparr>rc = fst (translate_error c sw False),
                     sent = [wire_bytes (apdu_init (YKHSMAUTH_INS_LIST c) 0 0)],
                     list_out = list, list_items_out = None\<rparr>
               else (case list_loop c dat recv_len n list 0 0 of
                  (Inl e, list') \<Rightarrow>
                    \<lparr>rc = e, sent = [wire_bytes (apdu_init (YKHSMAUTH_INS_LIST c) 0 0)],
                     list_out = list', list_items_out = None\<rparr>
                | (Inr (i, element), list') \<Rightarrow>
                    \<lparr>rc = (if i \<noteq> recv_len then YKHSMAUTHR_GENERIC_ERROR
                           else YKHSMAUTHR_SUCCESS),
                     sent = [wire_bytes (apdu_init (YKHSMAUTH_INS_LIST c) 0 0)],
                     list_out = list', list_items_out = Some element\<rparr>))
      | _ \<Rightarrow> \<lparr>rc = YKHSMAUTHR_INVALID_PARAMS, sent = [], list_out = list, list_items_out = None\<rparr>)"

section \<open>Notions used to state the properties\<close>

text \<open>
  The eight status words that the table of the specification maps by equality, in the
  order of the table.
\<close>

definition exact_codes :: "headers \<Rightarrow> 16 word list" where
  "exact_codes c =
     [SW_FILE_FULL c, SW_FILE_NOT_FOUND c, SW_WRONG_DATA c, SW_MEMORY_ERROR c,
      SW_SECURITY_STATUS_NOT_SATISFIED c, SW_FILE_INVALID c, SW_DATA_INVALID c,
      SW_INS_NOT_SUPPORTED c]"

text \<open>
  The bytes one call of \<^verbatim>\<open>add_tag\<close> appends: the tag, the encoded length of
  \<open>len + pad\<close>, \<open>len\<close> bytes of the value and \<open>pad\<close> zero bytes.
\<close>

definition field_bytes :: "byte \<Rightarrow> byte list \<Rightarrow> 16 word \<Rightarrow> 16 word \<Rightarrow> byte list" where
  "field_bytes tag dat len pad =
     tag # fst (encode_len (len + pad)) @ take (unat len) dat @ replicate (unat pad) 0"

text \<open>
  A TLV field as the specification describes it: the tag, the encoded length of the value,
  the value.
\<close>

definition tlv :: "byte \<Rightarrow> byte list \<Rightarrow> byte list" where
  "tlv tag v = tag # fst (encode_len (of_nat (length v))) @ v"

text \<open>
  The key fields of \<^verbatim>\<open>ykhsmauth_put\<close> (lines 376-381) and the two optional fields of
  \<^verbatim>\<open>ykhsmauth_calculate\<close> (lines 464-471), as the bytes they append.
\<close>

definition put_key_fields :: "headers \<Rightarrow> byte \<Rightarrow> byte list \<Rightarrow> nat \<Rightarrow> byte list" where
  "put_key_fields c algo key key_len =
     (if algo = YKHSMAUTH_YUBICO_AES128_ALGO c
      then field_bytes (YKHSMAUTH_TAG_KEY_ENC c) key (of_nat (key_len div 2)) 0 @
           field_bytes (YKHSMAUTH_TAG_KEY_MAC c) (drop (key_len div 2) key)
             (of_nat (key_len div 2)) 0
      else if algo = YKHSMAUTH_YUBICO_ECP256_ALGO c
      then field_bytes (YKHSMAUTH_TAG_PRIVKEY c) key (of_nat key_len) 0
      else [])"

definition calculate_pubkey_field :: "headers \<Rightarrow> byte list option \<Rightarrow> nat \<Rightarrow> byte list" where
  "calculate_pubkey_field c card_pubkey card_pubkey_len =
     (case card_pubkey of
        Some pk \<Rightarrow>
          if card_pubkey_len \<noteq> 0
          then field_bytes (YKHSMAUTH_TAG_PUBKEY c) pk (of_nat card_pubkey_len) 0
          else []
      | None \<Rightarrow> [])"

definition calculate_response_field :: "headers \<Rightarrow> byte list option \<Rightarrow> nat \<Rightarrow> byte list" where
  "calculate_response_field c card_crypto card_crypto_len =
     (case card_crypto of
        Some cc \<Rightarrow>
          if card_crypto_len > YKHSMAUTH_CARD_CRYPTO_LEN c
          then field_bytes (YKHSMAUTH_TAG_RESPONSE c) cc (of_nat card_crypto_len) 0
          else []
      | None \<Rightarrow> [])"

text \<open>
  The list answer as the specification describes it. A record is
  \<open>[tag][len][algorithm][touch][label bytes][counter]\<close> with \<open>len = 3 + label length\<close>.
  A record is well formed at the head of \<open>p\<close> when the tag is the list-entry tag, \<open>len\<close>
  is at least 3, the label fits the label array, and \<open>len\<close> bytes follow the length byte.
\<close>

fun record_ok :: "headers \<Rightarrow> byte list \<Rightarrow> bool" where
  "record_ok c (t # l # rest) =
     (t = YKHSMAUTH_TAG_LABEL_LIST c \<and> 3 \<le> unat l \<and> unat l - 3 \<le> LABEL_SIZE c \<and>
      unat l \<le> length rest)"
| "record_ok c _ = False"

text \<open>The entry a record body (the \<open>len\<close> bytes after the length byte) stands for.\<close>

definition entry_of :: "headers \<Rightarrow> byte list \<Rightarrow> ykhsmauth_list_entry" where
  "entry_of c body =
     \<lparr>entry_algo = body ! 0, entry_touch = body ! 1,
      entry_label = take (length body - 3) (drop 2 body) @
                    replicate (LABEL_SIZE c - (length body - 3)) 0,
      entry_ctr = body ! (length body - 1)\<rparr>"

text \<open>
  \<open>split_records c p\<close> reads well-formed records from the head of \<open>p\<close> for as long as
  there is one: the entries read, in order, and the bytes left where no well-formed record
  starts (none when the payload is a sequence of well-formed records).
\<close>

fun split_records :: "headers \<Rightarrow> byte list \<Rightarrow> ykhsmauth_list_entry list \<times> byte list" where
  "split_records c (t # l # rest) =
     (if record_ok c (t # l # rest)
      then (case split_records c (drop (unat l) rest) of
              (es, r) \<Rightarrow> (entry_of c (take (unat l) rest) # es, r))
      else ([], t # l # rest))"
| "split_records c p = ([], p)"

text \<open>The caller's array with \<open>es\<close> stored from slot \<open>k\<close> on.\<close>

definition fill_from :: "(nat \<Rightarrow> 'a) \<Rightarrow> nat \<Rightarrow> 'a list \<Rightarrow> nat \<Rightarrow> 'a" where
  "fill_from arr k es = (\<lambda>j. if k \<le> j \<and> j < k + length es then es ! (j - k) else arr j)"

text \<open>
  What the loop reads of the list answer when the output array is null: records are passed
  over for as long as one starts with the list-entry tag and its declared length is within
  the remaining bytes. \<open>chain_records c p\<close> is the number of records passed over and the
  bytes left where none such starts.
\<close>

fun chain_records :: "headers \<Rightarrow> byte list \<Rightarrow> nat \<times> byte list" where
  "chain_records c (t # l # rest) =
     (if t = YKHSMAUTH_TAG_LABEL_LIST c \<and> unat l \<le> length rest
      then (case chain_records c (drop (unat l) rest) of (k, r) \<Rightarrow> (Suc k, r))
      else (0, t # l # rest))"
| "chain_records c p = (0, p)"

section \<open>Words and bytes\<close>

lemma mask_ff: "(0xff :: 16 word) = mask 8"
  by (simp add: mask_eq_exp_minus_1)

lemma mask_f: "(0xf :: 16 word) = mask 4"
  by (simp add: mask_eq_exp_minus_1)

lemma mask_fff0: "(0xfff0 :: 16 word) = NOT (mask 4)"
  by (simp add: mask_eq_exp_minus_1)

lemma low_byte_and: "ucast (n AND 0xff :: 16 word) = (ucast n :: byte)"
  unfolding mask_ff by (rule bit_word_eqI) (auto simp add: bit_simps)

lemma unat_low_byte: "n \<le> 0xff \<Longrightarrow> unat (ucast (n :: 16 word) :: byte) = unat n"
  by (simp add: unsigned_ucast_eq word_le_nat_alt take_bit_nat_eq_self)

lemma unat_high_byte: "unat (ucast (drop_bit 8 (n :: 16 word)) :: byte) = unat n div 256"
proof -
  have "unat n < 65536" using unsigned_less[of n, where 'a=nat] by simp
  then have "unat n div 256 < 256" by simp
  then show ?thesis
    by (simp add: unsigned_ucast_eq drop_bit_eq_div unat_div take_bit_nat_eq_self)
qed

lemma low_nibble: "(sw :: 16 word) AND NOT 0xfff0 = sw AND 0xf"
  unfolding mask_fff0 mask_f by simp

lemma unat_low_nibble: "unat (ucast ((sw :: 16 word) AND 0xf) :: byte) = unat sw mod 16"
proof -
  have "unat (sw AND mask 4) = unat sw mod 16"
    by (simp add: take_bit_eq_mod unat_mod flip: take_bit_eq_mask)
  moreover have "unat sw mod 16 < 256"
    by (rule less_trans[OF mod_less_divisor]) simp_all
  ultimately show ?thesis
    unfolding mask_f by (simp add: unsigned_ucast_eq take_bit_nat_eq_self)
qed

lemma encode_len_length: "unat (snd (encode_len n)) = length (fst (encode_len n))"
  by (simp add: encode_len_def)

lemma word16_split: "(n :: 16 word) = word_cat (ucast (drop_bit 8 n) :: byte) (ucast n :: byte)"
  by (rule bit_word_eqI) (auto simp add: bit_simps)

lemma hi_lo_eq:
  fixes m n :: "16 word"
  assumes "(ucast (drop_bit 8 m) :: byte) = ucast (drop_bit 8 n)" "(ucast m :: byte) = ucast n"
  shows "m = n"
  using assms word16_split[of m] word16_split[of n] by simp

lemma lo_eq:
  fixes m n :: "16 word"
  assumes "(ucast m :: byte) = ucast n" "m \<le> 0xff" "n \<le> 0xff"
  shows "m = n"
  using assms unat_low_byte[of m] unat_low_byte[of n] by (metis word_unat_eq_iff)

lemma encode_len_inj: "fst (encode_len m) = fst (encode_len n) \<Longrightarrow> m = n"
  by (auto simp add: encode_len_def not_less split: if_splits intro: hi_lo_eq lo_eq)

section \<open>C6: the length encoding\<close>

text \<open>
  C6. For every 16-bit length \<open>n\<close>, \<^verbatim>\<open>encode_len\<close> writes exactly one byte whose value
  is \<open>n\<close> when \<open>n \<le> 0x7f\<close>, exactly the two bytes \<open>0x81, n\<close> when
  \<open>0x7f < n \<le> 0xff\<close>, and exactly the three bytes \<open>0x82, n >> 8, n & 0xff\<close> when
  \<open>n > 0xff\<close>; it returns the number of bytes written; and the bytes written determine
  \<open>n\<close>: two lengths with the same encoding are equal.
\<close>

theorem encode_len_spec:
  "(n \<le> 0x7f \<longrightarrow> encode_len n = ([ucast n], 1) \<and> unat (ucast n :: byte) = unat n) \<and>
   (0x7f < n \<and> n \<le> 0xff \<longrightarrow>
      encode_len n = ([0x81, ucast n], 2) \<and> unat (ucast n :: byte) = unat n) \<and>
   (0xff < n \<longrightarrow>
      encode_len n = ([0x82, ucast (drop_bit 8 n), ucast (n AND 0xff)], 3) \<and>
      unat (ucast (drop_bit 8 n) :: byte) = unat n div 256) \<and>
   unat (snd (encode_len n)) = length (fst (encode_len n)) \<and>
   (\<forall>m. fst (encode_len m) = fst (encode_len n) \<longrightarrow> m = n)"
proof -
  have small: "n \<le> 0x7f \<Longrightarrow> n \<le> 0xff" by (simp add: word_le_nat_alt)
  have a: "n \<le> 0x7f \<longrightarrow> encode_len n = ([ucast n], 1) \<and> unat (ucast n :: byte) = unat n"
    using small by (auto simp add: encode_len_def not_less unat_low_byte)
  have b: "0x7f < n \<and> n \<le> 0xff \<longrightarrow>
      encode_len n = ([0x81, ucast n], 2) \<and> unat (ucast n :: byte) = unat n"
    by (auto simp add: encode_len_def not_less unat_low_byte)
  have c: "0xff < n \<longrightarrow>
      encode_len n = ([0x82, ucast (drop_bit 8 n), ucast (n AND 0xff)], 3) \<and>
      unat (ucast (drop_bit 8 n) :: byte) = unat n div 256"
    by (simp add: encode_len_def low_byte_and unat_high_byte)
  show ?thesis using a b c encode_len_length encode_len_inj by blast
qed

theorem encode_len_spec_witness:
  "encode_len 5 = ([5], 1) \<and> encode_len 200 = ([0x81, 200], 2) \<and>
   encode_len 300 = ([0x82, 1, 44], 3)"
  using encode_len_spec[of 5] encode_len_spec[of 200] encode_len_spec[of 300] by simp

section \<open>C2: the status translator\<close>

text \<open>
  C2. Let the eight status words that the table compares by equality be pairwise
  different and outside the authentication-failed class (the table has one row for each
  status word). Then for every 16-bit status word \<open>sw\<close> \<^verbatim>\<open>translate_error\<close> returns
  the error of the table: \<open>WRONG_PW\<close> when the high 12 bits are those of
  \<open>SW_AUTHENTICATION_FAILED\<close>, and then the low nibble of \<open>sw\<close>, a value below 16, is
  stored through \<^verbatim>\<open>retries\<close> when that pointer is non-null and nothing is stored
  otherwise; \<open>STORAGE_FULL\<close>, \<open>ENTRY_NOT_FOUND\<close>, \<open>INVALID_PARAMS\<close>,
  \<open>MEMORY_ERROR\<close>, \<open>TOUCH_ERROR\<close>, \<open>ENTRY_INVALID\<close>, \<open>DATA_INVALID\<close> and
  \<open>NOT_SUPPORTED\<close> for the eight status words in turn; \<open>GENERIC_ERROR\<close> for every
  other value. With the ISO status words, 0 is such an other value (see the instance).
\<close>

theorem translate_error_table:
  assumes "distinct (exact_codes c)"
    and "\<forall>s \<in> set (exact_codes c). s AND 0xfff0 \<noteq> SW_AUTHENTICATION_FAILED c"
  shows
   "(sw AND 0xfff0 = SW_AUTHENTICATION_FAILED c \<longrightarrow>
       translate_error c sw retries =
         (YKHSMAUTHR_WRONG_PW, if retries then Some (ucast (sw AND 0xf)) else None) \<and>
       unat (ucast (sw AND 0xf) :: byte) = unat sw mod 16) \<and>
    (sw = SW_FILE_FULL c \<longrightarrow> translate_error c sw retries = (YKHSMAUTHR_STORAGE_FULL, None)) \<and>
    (sw = SW_FILE_NOT_FOUND c \<longrightarrow>
       translate_error c sw retries = (YKHSMAUTHR_ENTRY_NOT_FOUND, None)) \<and>
    (sw = SW_WRONG_DATA c \<longrightarrow>
       translate_error c sw retries = (YKHSMAUTHR_INVALID_PARAMS, None)) \<and>
    (sw = SW_MEMORY_ERROR c \<longrightarrow>
       translate_error c sw retries = (YKHSMAUTHR_MEMORY_ERROR, None)) \<and>
    (sw = SW_SECURITY_STATUS_NOT_SATISFIED c \<longrightarrow>
       translate_error c sw retries = (YKHSMAUTHR_TOUCH_ERROR, None)) \<and>
    (sw = SW_FILE_INVALID c \<longrightarrow>
       translate_error c sw retries = (YKHSMAUTHR_ENTRY_INVALID, None)) \<and>
    (sw = SW_DATA_INVALID c \<longrightarrow>
       translate_error c sw retries = (YKHSMAUTHR_DATA_INVALID, None)) \<and>
    (sw = SW_INS_NOT_SUPPORTED c \<longrightarrow>
       translate_error c sw retries = (YKHSMAUTHR_NOT_SUPPORTED, None)) \<and>
    (sw AND 0xfff0 \<noteq> SW_AUTHENTICATION_FAILED c \<and> sw \<notin> set (exact_codes c) \<longrightarrow>
       translate_error c sw retries = (YKHSMAUTHR_GENERIC_ERROR, None))"
proof -
  note d = assms(1)[unfolded exact_codes_def, simplified]
  note k = assms(2)[unfolded exact_codes_def, simplified]
  have auth: "sw AND 0xfff0 = SW_AUTHENTICATION_FAILED c \<longrightarrow>
       translate_error c sw retries =
         (YKHSMAUTHR_WRONG_PW, if retries then Some (ucast (sw AND 0xf)) else None) \<and>
       unat (ucast (sw AND 0xf) :: byte) = unat sw mod 16"
    unfolding translate_error_def low_nibble by (simp add: unat_low_nibble)
  have r1: "sw = SW_FILE_FULL c \<longrightarrow>
       translate_error c sw retries = (YKHSMAUTHR_STORAGE_FULL, None)"
    using k by (simp add: translate_error_def)
  have r2: "sw = SW_FILE_NOT_FOUND c \<longrightarrow>
       translate_error c sw retries = (YKHSMAUTHR_ENTRY_NOT_FOUND, None)"
    using k d by (auto simp add: translate_error_def)
  have r3: "sw = SW_WRONG_DATA c \<longrightarrow>
       translate_error c sw retries = (YKHSMAUTHR_INVALID_PARAMS, None)"
    using k d by (auto simp add: translate_error_def)
  have r4: "sw = SW_MEMORY_ERROR c \<longrightarrow>
       translate_error c sw retries = (YKHSMAUTHR_MEMORY_ERROR, None)"
    using k d by (auto simp add: translate_error_def)
  have r5: "sw = SW_SECURITY_STATUS_NOT_SATISFIED c \<longrightarrow>
       translate_error c sw retries = (YKHSMAUTHR_TOUCH_ERROR, None)"
    using k d by (auto simp add: translate_error_def)
  have r6: "sw = SW_FILE_INVALID c \<longrightarrow>
       translate_error c sw retries = (YKHSMAUTHR_ENTRY_INVALID, None)"
    using k d by (auto simp add: translate_error_def)
  have r7: "sw = SW_DATA_INVALID c \<longrightarrow>
       translate_error c sw retries = (YKHSMAUTHR_DATA_INVALID, None)"
    using k d by (auto simp add: translate_error_def)
  have r8: "sw = SW_INS_NOT_SUPPORTED c \<longrightarrow>
       translate_error c sw retries = (YKHSMAUTHR_NOT_SUPPORTED, None)"
    using k d by (auto simp add: translate_error_def)
  have other: "sw AND 0xfff0 \<noteq> SW_AUTHENTICATION_FAILED c \<and> sw \<notin> set (exact_codes c) \<longrightarrow>
       translate_error c sw retries = (YKHSMAUTHR_GENERIC_ERROR, None)"
    by (simp add: translate_error_def exact_codes_def)
  from auth r1 r2 r3 r4 r5 r6 r7 r8 other show ?thesis by (intro conjI)
qed

theorem translate_error_table_witness:
  "translate_error yubico_headers 0x63c5 True = (YKHSMAUTHR_WRONG_PW, Some 5) \<and>
   translate_error yubico_headers 0x63cf False = (YKHSMAUTHR_WRONG_PW, None) \<and>
   translate_error yubico_headers 0x6a84 True = (YKHSMAUTHR_STORAGE_FULL, None) \<and>
   translate_error yubico_headers 0x6d00 True = (YKHSMAUTHR_NOT_SUPPORTED, None) \<and>
   translate_error yubico_headers 0 True = (YKHSMAUTHR_GENERIC_ERROR, None)"
proof -
  have d: "distinct (exact_codes yubico_headers)"
    by (simp add: exact_codes_def yubico_headers_def)
  have s: "\<forall>s \<in> set (exact_codes yubico_headers).
             s AND 0xfff0 \<noteq> SW_AUTHENTICATION_FAILED yubico_headers"
    by (simp add: exact_codes_def yubico_headers_def)
  have h: "SW_AUTHENTICATION_FAILED yubico_headers = 0x63c0"
     "SW_FILE_FULL yubico_headers = 0x6a84" "SW_INS_NOT_SUPPORTED yubico_headers = 0x6d00"
     "exact_codes yubico_headers = [0x6a84, 0x6a82, 0x6a80, 0x6581, 0x6982, 0x6983, 0x6984, 0x6d00]"
    by (simp_all add: exact_codes_def yubico_headers_def)
  show ?thesis
    using translate_error_table[OF d s, of "0x63c5" True]
      translate_error_table[OF d s, of "0x63cf" False]
      translate_error_table[OF d s, of "0x6a84" True]
      translate_error_table[OF d s, of "0x6d00" True]
      translate_error_table[OF d s, of 0 True]
    by (simp add: h)
qed

section \<open>Appending a field\<close>

lemma store_at_append:
  "store_at buf off (xs @ ys) =
     (store_at buf off xs \<bind> (\<lambda>b. store_at b (off + length xs) ys))"
proof (cases "off + (length xs + length ys) \<le> length buf")
  case True
  then have "off + length xs \<le> length buf" "off \<le> length buf" by simp_all
  with True show ?thesis by (simp add: store_at_def ac_simps)
next
  case False
  then show ?thesis by (simp add: store_at_def ac_simps)
qed

lemma store_at_length: "store_at buf off bs = Some b \<Longrightarrow> length b = length buf"
  by (auto simp add: store_at_def split: if_splits)

lemma add_tag_store:
  "add_tag a tag dat len pad =
     (if length dat < unat len then None
      else store_at (data a) (unat (lc a)) (field_bytes tag dat len pad) \<bind>
           (\<lambda>d. Some (a\<lparr>data := d,
                  lc := of_nat (unat (lc a) + length (field_bytes tag dat len pad))\<rparr>)))"
proof -
  have split: "field_bytes tag dat len pad =
      [tag] @ fst (encode_len (len + pad)) @ take (unat len) dat @ replicate (unat pad) 0"
    by (simp add: field_bytes_def)
  show ?thesis
    unfolding add_tag_def split store_at_append Let_def encode_len_length
    by (cases "length dat < unat len")
       (auto simp add: min_def add.assoc split: Option.bind_splits)
qed

lemma add_tag_SomeD:
  assumes "add_tag a tag dat len pad = Some a'" and "length (data a) = APDU_DATA_LEN"
  shows "apdu_fields a' = apdu_fields a @ field_bytes tag dat len pad"
    and "length (data a') = APDU_DATA_LEN"
    and "unat (lc a') = unat (lc a) + length (field_bytes tag dat len pad)"
    and "unat len \<le> length dat"
    and "ins a' = ins a"
proof -
  let ?f = "field_bytes tag dat len pad"
  from assms(1) have le: "unat len \<le> length dat"
    by (auto simp add: add_tag_store split: if_splits)
  from assms(1) le obtain d where d: "store_at (data a) (unat (lc a)) ?f = Some d"
    and a': "a' = a\<lparr>data := d, lc := of_nat (unat (lc a) + length ?f)\<rparr>"
    by (auto simp add: add_tag_store split: if_splits Option.bind_splits)
  from d have fit: "unat (lc a) + length ?f \<le> length (data a)"
    and dd: "d = take (unat (lc a)) (data a) @ ?f @ drop (unat (lc a) + length ?f) (data a)"
    by (auto simp add: store_at_def split: if_splits)
  from fit assms(2) have small: "unat (lc a) + length ?f < 256"
    by (simp add: APDU_DATA_LEN_def)
  then have "unat (of_nat (unat (lc a) + length ?f) :: byte) = unat (lc a) + length ?f"
    by (intro of_nat_inverse[OF refl]) simp
  then have lc': "unat (lc a') = unat (lc a) + length ?f"
    by (simp add: a')
  show "unat (lc a') = unat (lc a) + length ?f" by (rule lc')
  show "length (data a') = APDU_DATA_LEN" using store_at_length[OF d] assms(2) by (simp add: a')
  show "unat len \<le> length dat" by (rule le)
  show "ins a' = ins a" by (simp add: a')
  have "take (unat (lc a) + length ?f) d = take (unat (lc a)) (data a) @ ?f"
  proof -
    from fit have "unat (lc a) \<le> length (data a)" by simp
    then show ?thesis by (simp add: dd)
  qed
  then show "apdu_fields a' = apdu_fields a @ ?f"
    unfolding apdu_fields_def lc' by (simp add: a')
qed

section \<open>The exchange\<close>

lemma send_data_SUCCESS_D:
  assumes "send_data st apdu cap = (YKHSMAUTHR_SUCCESS, dat, recv_len, sw)"
  shows "card st (wire_bytes apdu) = Some dat" and "length dat \<le> cap" and "recv_len \<le> length dat"
  using assms
  by (auto simp add: send_data_def wire_bytes_def Let_def split: option.splits if_splits)

lemma send_data_rc:
  "fst (send_data st apdu cap) = YKHSMAUTHR_SUCCESS \<or> fst (send_data st apdu cap) = YKHSMAUTHR_PCSC_ERROR"
  by (auto simp add: send_data_def Let_def split: option.splits if_splits)

lemma take_thrice: "take k xs @ take k (drop k xs) @ take k (drop (k + k) xs) = take (3 * k) xs"
proof -
  have "take (k + (k + k)) xs = take k xs @ take (k + k) (drop k xs)"
    by (rule take_add)
  also have "take (k + k) (drop k xs) = take k (drop k xs) @ take k (drop k (drop k xs))"
    by (rule take_add)
  finally have "take (k + (k + k)) xs = take k xs @ take k (drop k xs) @ take k (drop (k + k) xs)"
    by simp
  moreover have "k + (k + k) = 3 * k" by simp
  ultimately show ?thesis by simp
qed

section \<open>C1: the session keys\<close>

text \<open>
  C1. Let the arguments of \<^verbatim>\<open>ykhsmauth_calculate\<close> pass its check, let the fields fit
  the frame, and let the exchange succeed: \<^verbatim>\<open>send_data\<close> returns success with the
  status word \<open>SW_SUCCESS\<close>, the receive buffer \<open>dat\<close> and the payload length
  \<open>recv_len\<close>. If \<open>recv_len\<close> is exactly \<open>3 * SESSION_KEY_LEN\<close>, the operation
  returns success and copies into the encryption, MAC and response-MAC key buffers the
  first, second and third \<open>SESSION_KEY_LEN\<close> bytes of the payload, in that order: three
  keys of \<open>SESSION_KEY_LEN\<close> bytes each whose concatenation is the payload. For every
  other payload length it returns \<open>GENERIC_ERROR\<close> and copies nothing.
\<close>

theorem calculate_session_keys:
  assumes acc: "\<not> calculate_invalid c (Some st) (Some lb) (Some ctx) context_len card_pubkey_len
                   card_crypto_len (Some pw) pw_len kse kse_len ksm ksm_len ksr ksr_len"
    and fr: "calculate_apdu c lb ctx context_len card_pubkey card_pubkey_len
               card_crypto card_crypto_len pw pw_len = Some apdu"
    and ex: "send_data st apdu 256 = (YKHSMAUTHR_SUCCESS, dat, recv_len, SW_SUCCESS c)"
  shows "if recv_len = 3 * YKHSMAUTH_SESSION_KEY_LEN c
         then ykhsmauth_calculate c (Some st) (Some lb) (Some ctx) context_len
                  card_pubkey card_pubkey_len card_crypto card_crypto_len (Some pw) pw_len
                  kse kse_len ksm ksm_len ksr ksr_len retries =
                Some \<lparr>rc = YKHSMAUTHR_SUCCESS, sent = [wire_bytes apdu], retries_out = None,
                  key_s_enc_out = Some (take (YKHSMAUTH_SESSION_KEY_LEN c) dat),
                  key_s_mac_out = Some (take (YKHSMAUTH_SESSION_KEY_LEN c)
                    (drop (YKHSMAUTH_SESSION_KEY_LEN c) dat)),
                  key_s_rmac_out = Some (take (YKHSMAUTH_SESSION_KEY_LEN c)
                    (drop (2 * YKHSMAUTH_SESSION_KEY_LEN c) dat))\<rparr> \<and>
              length (take (YKHSMAUTH_SESSION_KEY_LEN c) dat) = YKHSMAUTH_SESSION_KEY_LEN c \<and>
              length (take (YKHSMAUTH_SESSION_KEY_LEN c)
                    (drop (YKHSMAUTH_SESSION_KEY_LEN c) dat)) = YKHSMAUTH_SESSION_KEY_LEN c \<and>
              length (take (YKHSMAUTH_SESSION_KEY_LEN c)
                    (drop (2 * YKHSMAUTH_SESSION_KEY_LEN c) dat)) = YKHSMAUTH_SESSION_KEY_LEN c \<and>
              take (YKHSMAUTH_SESSION_KEY_LEN c) dat @
                take (YKHSMAUTH_SESSION_KEY_LEN c) (drop (YKHSMAUTH_SESSION_KEY_LEN c) dat) @
                take (YKHSMAUTH_SESSION_KEY_LEN c) (drop (2 * YKHSMAUTH_SESSION_KEY_LEN c) dat) =
              take recv_len dat
         else ykhsmauth_calculate c (Some st) (Some lb) (Some ctx) context_len
                  card_pubkey card_pubkey_len card_crypto card_crypto_len (Some pw) pw_len
                  kse kse_len ksm ksm_len ksr ksr_len retries =
                Some \<lparr>rc = YKHSMAUTHR_GENERIC_ERROR, sent = [wire_bytes apdu],
                      retries_out = None, key_s_enc_out = None, key_s_mac_out = None,
                      key_s_rmac_out = None\<rparr>"
proof -
  let ?k = "YKHSMAUTH_SESSION_KEY_LEN c"
  have run: "ykhsmauth_calculate c (Some st) (Some lb) (Some ctx) context_len
                  card_pubkey card_pubkey_len card_crypto card_crypto_len (Some pw) pw_len
                  kse kse_len ksm ksm_len ksr ksr_len retries =
             Some (calculate_finish c st apdu retries)"
    using acc fr by (simp add: ykhsmauth_calculate_def)
  show ?thesis
  proof (cases "recv_len = 3 * ?k")
    case True
    from send_data_SUCCESS_D(3)[OF ex] True have len: "3 * ?k \<le> length dat" by simp
    have two: "2 * ?k = ?k + ?k" by simp
    have cat: "take ?k dat @ take ?k (drop ?k dat) @ take ?k (drop (?k + ?k) dat) = take (3 * ?k) dat"
      by (rule take_thrice)
    show ?thesis
      unfolding two using True len cat
      by (simp add: run calculate_finish_def ex)
  next
    case False
    then show ?thesis by (simp add: run calculate_finish_def ex)
  qed
qed

theorem calculate_session_keys_witness:
  "(\<exists>r. ykhsmauth_calculate yubico_headers
          (Some \<lparr>verbose = 0,
                 card = \<lambda>_. Some (replicate 16 1 @ replicate 16 2 @ replicate 16 3 @ [0x90, 0])\<rparr>)
          (Some [0x61, 0x62, 0x63]) (Some (replicate 16 7)) 16 None 0 None 0
          (Some [1, 2, 3, 4]) 4 True 16 True 16 True 16 True = Some r \<and>
        rc r = YKHSMAUTHR_SUCCESS \<and> key_s_enc_out r = Some (replicate 16 1) \<and>
        key_s_mac_out r = Some (replicate 16 2) \<and> key_s_rmac_out r = Some (replicate 16 3)) \<and>
   (\<exists>r. ykhsmauth_calculate yubico_headers
          (Some \<lparr>verbose = 0,
                 card = \<lambda>_. Some (replicate 16 1 @ replicate 16 2 @ replicate 15 3 @ [0x90, 0])\<rparr>)
          (Some [0x61, 0x62, 0x63]) (Some (replicate 16 7)) 16 None 0 None 0
          (Some [1, 2, 3, 4]) 4 True 16 True 16 True 16 True = Some r \<and>
        rc r = YKHSMAUTHR_GENERIC_ERROR \<and> key_s_enc_out r = None \<and>
        key_s_mac_out r = None \<and> key_s_rmac_out r = None)"
proof -
  let ?c = yubico_headers
  let ?good = "replicate 16 1 @ replicate 16 2 @ replicate 16 3 @ [0x90, 0 :: byte]"
  let ?short = "replicate 16 1 @ replicate 16 2 @ replicate 15 3 @ [0x90, 0 :: byte]"
  let ?st = "\<lambda>resp. \<lparr>verbose = 0, card = \<lambda>_. Some resp\<rparr>"
  have k: "YKHSMAUTH_SESSION_KEY_LEN ?c = 16" "SW_SUCCESS ?c = 0x9000"
    by (simp_all add: yubico_headers_def)
  have acc: "\<not> calculate_invalid ?c (Some (?st resp)) (Some [0x61, 0x62, 0x63])
      (Some (replicate 16 7)) 16 0 0 (Some [1, 2, 3, 4]) 4 True 16 True 16 True 16" for resp
    by (simp add: calculate_invalid_def label_invalid_def yubico_headers_def)
  have "calculate_apdu ?c [0x61, 0x62, 0x63] (replicate 16 7) 16 None 0 None 0 [1, 2, 3, 4] 4 \<noteq> None"
    by (simp add: calculate_apdu_def add_tag_store field_bytes_def encode_len_def store_at_def
        apdu_init_def APDU_DATA_LEN_def yubico_headers_def)
  then obtain a where
    fr: "calculate_apdu ?c [0x61, 0x62, 0x63] (replicate 16 7) 16 None 0 None 0 [1, 2, 3, 4] 4 = Some a"
    by blast
  have ex1: "send_data (?st ?good) a 256 =
      (YKHSMAUTHR_SUCCESS, ?good, 48, SW_SUCCESS ?c)"
    by (simp add: send_data_def Let_def nth_append k)
  have ex2: "send_data (?st ?short) a 256 =
      (YKHSMAUTHR_SUCCESS, ?short, 47, SW_SUCCESS ?c)"
    by (simp add: send_data_def Let_def nth_append k)
  show ?thesis
    using calculate_session_keys[OF acc fr ex1, of True]
      calculate_session_keys[OF acc fr ex2, of True]
    by (simp add: k)
qed

section \<open>The frames of store and derive\<close>

lemma unat_of_nat16: "n < 65536 \<Longrightarrow> unat (of_nat n :: 16 word) = n"
  by (rule of_nat_inverse[OF refl]) simp

lemma field_bytes_tlv:
  assumes "n \<le> length dat" and "n + p < 65536"
  shows "field_bytes tag dat (of_nat n) (of_nat p) = tlv tag (take n dat @ replicate p 0)"
proof -
  from assms(2) have "unat (of_nat n :: 16 word) = n" "unat (of_nat p :: 16 word) = p"
    by (simp_all add: unat_of_nat16)
  moreover have "(of_nat n :: 16 word) + of_nat p = of_nat (n + p)" by simp
  ultimately show ?thesis
    using assms(1) unfolding field_bytes_def tlv_def by (simp del: of_nat_add)
qed

lemma add_tag_header:
  assumes "add_tag a tag dat len pad = Some a'"
  shows "cla a' = cla a" "ins a' = ins a" "p1 a' = p1 a" "p2 a' = p2 a"
  using assms by (auto simp add: add_tag_store split: if_splits Option.bind_splits)

lemma apdu_init_fields [simp]:
  "apdu_fields (apdu_init i q1 q2) = []" "length (data (apdu_init i q1 q2)) = APDU_DATA_LEN"
  "cla (apdu_init i q1 q2) = 0" "ins (apdu_init i q1 q2) = i"
  "p1 (apdu_init i q1 q2) = q1" "p2 (apdu_init i q1 q2) = q2"
  by (simp_all add: apdu_fields_def apdu_init_def)

lemma wire_bytes_fields:
  "wire_bytes a = [cla a, ins a, p1 a, p2 a, lc a] @ apdu_fields a"
  by (simp add: wire_bytes_def apdu_raw_def apdu_fields_def numeral_eq_Suc)

lemma put_key_fields_step:
  assumes "(if algo = YKHSMAUTH_YUBICO_AES128_ALGO c then do {
              b \<leftarrow> add_tag a3 (YKHSMAUTH_TAG_KEY_ENC c) key (of_nat (key_len div 2)) 0;
              add_tag b (YKHSMAUTH_TAG_KEY_MAC c) (drop (key_len div 2) key)
                (of_nat (key_len div 2)) 0 }
            else if algo = YKHSMAUTH_YUBICO_ECP256_ALGO c
            then add_tag a3 (YKHSMAUTH_TAG_PRIVKEY c) key (of_nat key_len) 0
            else Some a3) = Some a4"
    and "length (data a3) = APDU_DATA_LEN"
  shows "apdu_fields a4 = apdu_fields a3 @ put_key_fields c algo key key_len"
    and "length (data a4) = APDU_DATA_LEN"
    and "cla a4 = cla a3" "ins a4 = ins a3" "p1 a4 = p1 a3" "p2 a4 = p2 a3"
    and "algo = YKHSMAUTH_YUBICO_AES128_ALGO c \<longrightarrow>
           unat (of_nat (key_len div 2) :: 16 word) \<le> length (drop (key_len div 2) key)"
proof -
  consider (aes) "algo = YKHSMAUTH_YUBICO_AES128_ALGO c"
    | (ecp) "algo \<noteq> YKHSMAUTH_YUBICO_AES128_ALGO c" "algo = YKHSMAUTH_YUBICO_ECP256_ALGO c"
    | (other) "algo \<noteq> YKHSMAUTH_YUBICO_AES128_ALGO c" "algo \<noteq> YKHSMAUTH_YUBICO_ECP256_ALGO c"
    by blast
  then have "apdu_fields a4 = apdu_fields a3 @ put_key_fields c algo key key_len \<and>
    length (data a4) = APDU_DATA_LEN \<and>
    cla a4 = cla a3 \<and> ins a4 = ins a3 \<and> p1 a4 = p1 a3 \<and> p2 a4 = p2 a3 \<and>
    (algo = YKHSMAUTH_YUBICO_AES128_ALGO c \<longrightarrow>
           unat (of_nat (key_len div 2) :: 16 word) \<le> length (drop (key_len div 2) key))"
  proof cases
    case aes
    with assms(1) obtain b where
      b: "add_tag a3 (YKHSMAUTH_TAG_KEY_ENC c) key (of_nat (key_len div 2)) 0 = Some b"
      and a4: "add_tag b (YKHSMAUTH_TAG_KEY_MAC c) (drop (key_len div 2) key)
                (of_nat (key_len div 2)) 0 = Some a4"
      by (auto split: Option.bind_splits)
    note B = add_tag_SomeD[OF b assms(2)] add_tag_header[OF b]
    note A = add_tag_SomeD[OF a4 B(2)] add_tag_header[OF a4]
    show ?thesis using aes A B by (simp add: put_key_fields_def)
  next
    case ecp
    with assms(1) have a4: "add_tag a3 (YKHSMAUTH_TAG_PRIVKEY c) key (of_nat key_len) 0 = Some a4"
      by simp
    note A = add_tag_SomeD[OF a4 assms(2)] add_tag_header[OF a4]
    show ?thesis using ecp A by (simp add: put_key_fields_def)
  next
    case other
    with assms show ?thesis by (simp add: put_key_fields_def)
  qed
  then show "apdu_fields a4 = apdu_fields a3 @ put_key_fields c algo key key_len"
    and "length (data a4) = APDU_DATA_LEN"
    and "cla a4 = cla a3" "ins a4 = ins a3" "p1 a4 = p1 a3" "p2 a4 = p2 a3"
    and "algo = YKHSMAUTH_YUBICO_AES128_ALGO c \<longrightarrow>
           unat (of_nat (key_len div 2) :: 16 word) \<le> length (drop (key_len div 2) key)"
    by simp_all
qed

lemma put_apdu_layout:
  assumes "put_apdu c mk mgmkey_len lb algo k key_len pw cpw_len tp = Some a"
  shows "wire_bytes a =
     [0, YKHSMAUTH_INS_PUT c, 0, 0, lc a] @
     field_bytes (YKHSMAUTH_TAG_MGMKEY c) mk (of_nat mgmkey_len) 0 @
     field_bytes (YKHSMAUTH_TAG_LABEL c) lb (of_nat (length lb)) 0 @
     field_bytes (YKHSMAUTH_TAG_ALGO c) [algo] 1 0 @
     put_key_fields c algo k key_len @
     field_bytes (YKHSMAUTH_TAG_PW c) pw (of_nat cpw_len) (of_nat (YKHSMAUTH_PW_LEN c - cpw_len)) @
     field_bytes (YKHSMAUTH_TAG_TOUCH c) [tp] 1 0"
   and "unat (of_nat cpw_len :: 16 word) \<le> length pw"
   and "unat (of_nat mgmkey_len :: 16 word) \<le> length mk"
   and "algo = YKHSMAUTH_YUBICO_AES128_ALGO c \<longrightarrow>
           unat (of_nat (key_len div 2) :: 16 word) \<le> length (drop (key_len div 2) k)"
proof -
  from assms obtain a1 a2 a3 a4 a5 where
    s1: "add_tag (apdu_init (YKHSMAUTH_INS_PUT c) 0 0)
             (YKHSMAUTH_TAG_MGMKEY c) mk (of_nat mgmkey_len) 0 = Some a1"
    and s2: "add_tag a1 (YKHSMAUTH_TAG_LABEL c) lb (of_nat (length lb)) 0 = Some a2"
    and s3: "add_tag a2 (YKHSMAUTH_TAG_ALGO c) [algo] 1 0 = Some a3"
    and s4: "(if algo = YKHSMAUTH_YUBICO_AES128_ALGO c then do {
              b \<leftarrow> add_tag a3 (YKHSMAUTH_TAG_KEY_ENC c) k (of_nat (key_len div 2)) 0;
              add_tag b (YKHSMAUTH_TAG_KEY_MAC c) (drop (key_len div 2) k)
                (of_nat (key_len div 2)) 0 }
            else if algo = YKHSMAUTH_YUBICO_ECP256_ALGO c
            then add_tag a3 (YKHSMAUTH_TAG_PRIVKEY c) k (of_nat key_len) 0
            else Some a3) = Some a4"
    and s5: "add_tag a4 (YKHSMAUTH_TAG_PW c) pw (of_nat cpw_len)
             (of_nat (YKHSMAUTH_PW_LEN c - cpw_len)) = Some a5"
    and s6: "add_tag a5 (YKHSMAUTH_TAG_TOUCH c) [tp] 1 0 = Some a"
    unfolding put_apdu_def bind_eq_Some_conv by blast
  note A1 = add_tag_SomeD[OF s1 apdu_init_fields(2)] add_tag_header[OF s1]
  note A2 = add_tag_SomeD[OF s2 A1(2)] add_tag_header[OF s2]
  note A3 = add_tag_SomeD[OF s3 A2(2)] add_tag_header[OF s3]
  note A4 = put_key_fields_step[OF s4 A3(2)]
  note A5 = add_tag_SomeD[OF s5 A4(2)] add_tag_header[OF s5]
  note A6 = add_tag_SomeD[OF s6 A5(2)] add_tag_header[OF s6]
  show "unat (of_nat cpw_len :: 16 word) \<le> length pw" by (rule A5(4))
  show "unat (of_nat mgmkey_len :: 16 word) \<le> length mk" by (rule A1(4))
  show "algo = YKHSMAUTH_YUBICO_AES128_ALGO c \<longrightarrow>
           unat (of_nat (key_len div 2) :: 16 word) \<le> length (drop (key_len div 2) k)"
    by (rule A4(7))
  show "wire_bytes a =
     [0, YKHSMAUTH_INS_PUT c, 0, 0, lc a] @
     field_bytes (YKHSMAUTH_TAG_MGMKEY c) mk (of_nat mgmkey_len) 0 @
     field_bytes (YKHSMAUTH_TAG_LABEL c) lb (of_nat (length lb)) 0 @
     field_bytes (YKHSMAUTH_TAG_ALGO c) [algo] 1 0 @
     put_key_fields c algo k key_len @
     field_bytes (YKHSMAUTH_TAG_PW c) pw (of_nat cpw_len) (of_nat (YKHSMAUTH_PW_LEN c - cpw_len)) @
     field_bytes (YKHSMAUTH_TAG_TOUCH c) [tp] 1 0"
    unfolding wire_bytes_fields
    by (simp add: A1(1,6-9) A2(1,6-9) A3(1,6-9) A4(1,3-6) A5(1,6-9) A6(1,6-9))
qed

lemma optional_field_step:
  assumes "(if present then add_tag a tag dat len pad else Some a) = Some a'"
    and "length (data a) = APDU_DATA_LEN"
  shows "apdu_fields a' = apdu_fields a @ (if present then field_bytes tag dat len pad else [])"
    and "length (data a') = APDU_DATA_LEN"
    and "cla a' = cla a" "ins a' = ins a" "p1 a' = p1 a" "p2 a' = p2 a"
proof -
  have "apdu_fields a' = apdu_fields a @ (if present then field_bytes tag dat len pad else []) \<and>
    length (data a') = APDU_DATA_LEN \<and>
    cla a' = cla a \<and> ins a' = ins a \<and> p1 a' = p1 a \<and> p2 a' = p2 a"
  proof (cases present)
    case True
    with assms(1) have s: "add_tag a tag dat len pad = Some a'" by simp
    show ?thesis
      using True add_tag_SomeD[OF s assms(2)] add_tag_header[OF s] by simp
  next
    case False
    with assms show ?thesis by simp
  qed
  then show "apdu_fields a' = apdu_fields a @ (if present then field_bytes tag dat len pad else [])"
    and "length (data a') = APDU_DATA_LEN"
    and "cla a' = cla a" "ins a' = ins a" "p1 a' = p1 a" "p2 a' = p2 a"
    by simp_all
qed

lemma calculate_apdu_layout:
  assumes "calculate_apdu c lb ctx context_len card_pubkey card_pubkey_len
             card_crypto card_crypto_len pw pw_len = Some a"
  shows "wire_bytes a =
     [0, YKHSMAUTH_INS_CALCULATE c, 0, 0, lc a] @
     field_bytes (YKHSMAUTH_TAG_LABEL c) lb (of_nat (length lb)) 0 @
     field_bytes (YKHSMAUTH_TAG_CONTEXT c) ctx (of_nat context_len) 0 @
     calculate_pubkey_field c card_pubkey card_pubkey_len @
     calculate_response_field c card_crypto card_crypto_len @
     field_bytes (YKHSMAUTH_TAG_PW c) pw (of_nat pw_len) (of_nat (YKHSMAUTH_PW_LEN c - pw_len))"
   and "unat (of_nat pw_len :: 16 word) \<le> length pw"
proof -
  let ?pk = "case card_pubkey of Some pk \<Rightarrow> pk | None \<Rightarrow> []"
  let ?cc = "case card_crypto of Some cc \<Rightarrow> cc | None \<Rightarrow> []"
  from assms obtain a1 a2 a3 a4 where
    s1: "add_tag (apdu_init (YKHSMAUTH_INS_CALCULATE c) 0 0)
             (YKHSMAUTH_TAG_LABEL c) lb (of_nat (length lb)) 0 = Some a1"
    and s2: "add_tag a1 (YKHSMAUTH_TAG_CONTEXT c) ctx (of_nat context_len) 0 = Some a2"
    and s3: "(case card_pubkey of
              Some pk \<Rightarrow>
                if card_pubkey_len \<noteq> 0
                then add_tag a2 (YKHSMAUTH_TAG_PUBKEY c) pk (of_nat card_pubkey_len) 0
                else Some a2
            | None \<Rightarrow> Some a2) = Some a3"
    and s4: "(case card_crypto of
              Some cc \<Rightarrow>
                if card_crypto_len > YKHSMAUTH_CARD_CRYPTO_LEN c
                then add_tag a3 (YKHSMAUTH_TAG_RESPONSE c) cc (of_nat card_crypto_len) 0
                else Some a3
            | None \<Rightarrow> Some a3) = Some a4"
    and s5: "add_tag a4 (YKHSMAUTH_TAG_PW c) pw (of_nat pw_len)
               (of_nat (YKHSMAUTH_PW_LEN c - pw_len)) = Some a"
    unfolding calculate_apdu_def bind_eq_Some_conv by blast
  from s3 have s3': "(if card_pubkey \<noteq> None \<and> card_pubkey_len \<noteq> 0
      then add_tag a2 (YKHSMAUTH_TAG_PUBKEY c) ?pk (of_nat card_pubkey_len) 0 else Some a2) = Some a3"
    by (cases card_pubkey) (auto split: if_splits)
  from s4 have s4': "(if card_crypto \<noteq> None \<and> card_crypto_len > YKHSMAUTH_CARD_CRYPTO_LEN c
      then add_tag a3 (YKHSMAUTH_TAG_RESPONSE c) ?cc (of_nat card_crypto_len) 0 else Some a3) = Some a4"
    by (cases card_crypto) (auto split: if_splits)
  note A1 = add_tag_SomeD[OF s1 apdu_init_fields(2)] add_tag_header[OF s1]
  note A2 = add_tag_SomeD[OF s2 A1(2)] add_tag_header[OF s2]
  note A3 = optional_field_step[OF s3' A2(2)]
  note A4 = optional_field_step[OF s4' A3(2)]
  note A5 = add_tag_SomeD[OF s5 A4(2)] add_tag_header[OF s5]
  have f3: "(if card_pubkey \<noteq> None \<and> card_pubkey_len \<noteq> 0
      then field_bytes (YKHSMAUTH_TAG_PUBKEY c) ?pk (of_nat card_pubkey_len) 0 else []) =
      calculate_pubkey_field c card_pubkey card_pubkey_len"
    by (cases card_pubkey) (simp_all add: calculate_pubkey_field_def)
  have f4: "(if card_crypto \<noteq> None \<and> card_crypto_len > YKHSMAUTH_CARD_CRYPTO_LEN c
      then field_bytes (YKHSMAUTH_TAG_RESPONSE c) ?cc (of_nat card_crypto_len) 0 else []) =
      calculate_response_field c card_crypto card_crypto_len"
    by (cases card_crypto) (simp_all add: calculate_response_field_def)
  show "unat (of_nat pw_len :: 16 word) \<le> length pw" by (rule A5(4))
  show "wire_bytes a =
     [0, YKHSMAUTH_INS_CALCULATE c, 0, 0, lc a] @
     field_bytes (YKHSMAUTH_TAG_LABEL c) lb (of_nat (length lb)) 0 @
     field_bytes (YKHSMAUTH_TAG_CONTEXT c) ctx (of_nat context_len) 0 @
     calculate_pubkey_field c card_pubkey card_pubkey_len @
     calculate_response_field c card_crypto card_crypto_len @
     field_bytes (YKHSMAUTH_TAG_PW c) pw (of_nat pw_len) (of_nat (YKHSMAUTH_PW_LEN c - pw_len))"
    unfolding wire_bytes_fields
    by (simp add: A1(1,6-9) A2(1,6-9) A3(1)[unfolded f3] A3(3-6) A4(1)[unfolded f4] A4(3-6)
        A5(1,6-9))
qed

lemma send_and_check_sent [simp]: "sent (send_and_check c st a retries) = [wire_bytes a]"
  by (simp add: send_and_check_def split: prod.splits)

lemma calculate_finish_sent [simp]: "sent (calculate_finish c st a retries) = [wire_bytes a]"
  by (simp add: calculate_finish_def split: prod.splits)

lemma password_field:
  assumes "p \<le> YKHSMAUTH_PW_LEN c" and "YKHSMAUTH_PW_LEN c < 65536"
    and "unat (of_nat p :: 16 word) \<le> length pw"
  shows "field_bytes tag pw (of_nat p) (of_nat (YKHSMAUTH_PW_LEN c - p)) =
           tlv tag (take p pw @ replicate (YKHSMAUTH_PW_LEN c - p) 0)"
    and "length (take p pw @ replicate (YKHSMAUTH_PW_LEN c - p) 0) = YKHSMAUTH_PW_LEN c"
    and "p \<le> length pw"
proof -
  from assms(1,2) have "p < 65536" by simp
  with assms(3) show le: "p \<le> length pw" by (simp add: unat_of_nat16)
  from assms(1) have sum: "p + (YKHSMAUTH_PW_LEN c - p) = YKHSMAUTH_PW_LEN c" by simp
  show "field_bytes tag pw (of_nat p) (of_nat (YKHSMAUTH_PW_LEN c - p)) =
           tlv tag (take p pw @ replicate (YKHSMAUTH_PW_LEN c - p) 0)"
    by (rule field_bytes_tlv[OF le]) (simp add: sum assms(2))
  show "length (take p pw @ replicate (YKHSMAUTH_PW_LEN c - p) 0) = YKHSMAUTH_PW_LEN c"
    using le assms(1) by simp
qed

section \<open>The password field in a frame that was built\<close>

text \<open>
  Let \<open>PW_LEN\<close> fit 16 bits. For every call of store or derive-session-keys that
  passes the argument check with a password of \<open>p \<le> PW_LEN\<close> bytes (the first \<open>p\<close>
  bytes at \<^verbatim>\<open>cpw\<close>) and whose fields fit the frame, the frame given to the transport
  holds the password TLV field with tag \<open>TAG_PW\<close>, a declared length that encodes
  exactly \<open>PW_LEN\<close>, and as value the \<open>p\<close> password bytes followed by
  \<open>PW_LEN - p\<close> zero bytes. In store the touch-policy field follows it and ends the
  frame; in derive it ends the frame. The padding is the encoder's: the caller passes only the
  \<open>p\<close> bytes.
\<close>

lemma password_field_in_frame:
  assumes "YKHSMAUTH_PW_LEN c < 65536"
  shows
   "(\<not> put_invalid c state mgmkey mgmkey_len lbl key key_len (Some pw) p \<and>
     ykhsmauth_put c state mgmkey mgmkey_len lbl algo key key_len (Some pw) p tp retries = Some r \<longrightarrow>
       (\<exists>pre. sent r =
          [pre @ tlv (YKHSMAUTH_TAG_PW c) (take p pw @ replicate (YKHSMAUTH_PW_LEN c - p) 0) @
           tlv (YKHSMAUTH_TAG_TOUCH c) [tp]]) \<and>
       length (take p pw @ replicate (YKHSMAUTH_PW_LEN c - p) 0) = YKHSMAUTH_PW_LEN c \<and>
       p \<le> length pw) \<and>
    (\<not> calculate_invalid c state lbl ctx context_len card_pubkey_len card_crypto_len (Some pw) p
         kse kse_len ksm ksm_len ksr ksr_len \<and>
     ykhsmauth_calculate c state lbl ctx context_len card_pubkey card_pubkey_len
       card_crypto card_crypto_len (Some pw) p kse kse_len ksm ksm_len ksr ksr_len retries = Some q \<longrightarrow>
       (\<exists>pre. sent q =
          [pre @ tlv (YKHSMAUTH_TAG_PW c) (take p pw @ replicate (YKHSMAUTH_PW_LEN c - p) 0)]) \<and>
       length (take p pw @ replicate (YKHSMAUTH_PW_LEN c - p) 0) = YKHSMAUTH_PW_LEN c \<and>
       p \<le> length pw)"
proof (intro conjI impI; (elim conjE)?)
  assume ok: "\<not> put_invalid c state mgmkey mgmkey_len lbl key key_len (Some pw) p"
    and run: "ykhsmauth_put c state mgmkey mgmkey_len lbl algo key key_len (Some pw) p tp retries = Some r"
  from ok obtain st mk lb k where args: "state = Some st" "mgmkey = Some mk" "lbl = Some lb" "key = Some k"
    and p: "p \<le> YKHSMAUTH_PW_LEN c"
    by (auto simp add: put_invalid_def label_invalid_def split: option.splits)
  from run ok obtain a where a: "put_apdu c mk mgmkey_len lb algo k key_len pw p tp = Some a"
    and r: "r = send_and_check c st a retries"
    by (auto simp add: ykhsmauth_put_def args split: Option.bind_splits)
  note L = put_apdu_layout[OF a]
  note P = password_field(1)[OF p assms L(2), of "YKHSMAUTH_TAG_PW c"]
    password_field(2,3)[OF p assms L(2)]
  have touch: "field_bytes (YKHSMAUTH_TAG_TOUCH c) [tp] 1 0 = tlv (YKHSMAUTH_TAG_TOUCH c) [tp]"
    using field_bytes_tlv[of 1 "[tp]" 0 "YKHSMAUTH_TAG_TOUCH c"] by simp
  show "\<exists>pre. sent r =
          [pre @ tlv (YKHSMAUTH_TAG_PW c) (take p pw @ replicate (YKHSMAUTH_PW_LEN c - p) 0) @
           tlv (YKHSMAUTH_TAG_TOUCH c) [tp]]"
    unfolding r send_and_check_sent L(1) P(1) touch
    by (intro exI[of _ "[0, YKHSMAUTH_INS_PUT c, 0, 0, lc a] @
     field_bytes (YKHSMAUTH_TAG_MGMKEY c) mk (of_nat mgmkey_len) 0 @
     field_bytes (YKHSMAUTH_TAG_LABEL c) lb (of_nat (length lb)) 0 @
     field_bytes (YKHSMAUTH_TAG_ALGO c) [algo] 1 0 @
     put_key_fields c algo k key_len"]) simp
  show "length (take p pw @ replicate (YKHSMAUTH_PW_LEN c - p) 0) = YKHSMAUTH_PW_LEN c"
    by (rule P(2))
  show "p \<le> length pw" by (rule P(3))
next
  assume ok: "\<not> calculate_invalid c state lbl ctx context_len card_pubkey_len card_crypto_len
         (Some pw) p kse kse_len ksm ksm_len ksr ksr_len"
    and run: "ykhsmauth_calculate c state lbl ctx context_len card_pubkey card_pubkey_len
       card_crypto card_crypto_len (Some pw) p kse kse_len ksm ksm_len ksr ksr_len retries = Some q"
  from ok obtain st lb cx where args: "state = Some st" "lbl = Some lb" "ctx = Some cx"
    and p: "p \<le> YKHSMAUTH_PW_LEN c"
    by (auto simp add: calculate_invalid_def label_invalid_def split: option.splits)
  from run ok obtain a where a: "calculate_apdu c lb cx context_len card_pubkey card_pubkey_len
             card_crypto card_crypto_len pw p = Some a"
    and q: "q = calculate_finish c st a retries"
    by (auto simp add: ykhsmauth_calculate_def args split: Option.bind_splits)
  note L = calculate_apdu_layout[OF a]
  note P = password_field(1)[OF p assms L(2), of "YKHSMAUTH_TAG_PW c"]
    password_field(2,3)[OF p assms L(2)]
  show "\<exists>pre. sent q =
          [pre @ tlv (YKHSMAUTH_TAG_PW c) (take p pw @ replicate (YKHSMAUTH_PW_LEN c - p) 0)]"
    unfolding q calculate_finish_sent L(1) P(1)
    by (intro exI[of _ "[0, YKHSMAUTH_INS_CALCULATE c, 0, 0, lc a] @
     field_bytes (YKHSMAUTH_TAG_LABEL c) lb (of_nat (length lb)) 0 @
     field_bytes (YKHSMAUTH_TAG_CONTEXT c) cx (of_nat context_len) 0 @
     calculate_pubkey_field c card_pubkey card_pubkey_len @
     calculate_response_field c card_crypto card_crypto_len"]) simp
  show "length (take p pw @ replicate (YKHSMAUTH_PW_LEN c - p) 0) = YKHSMAUTH_PW_LEN c"
    by (rule P(2))
  show "p \<le> length pw" by (rule P(3))
qed

section \<open>C9: the two halves of a symmetric key\<close>

text \<open>
  For every store-credential call with the symmetric-128 algorithm that passes the argument
  check (the private-key bound fitting 16 bits) and whose fields fit the frame, the frame
  given to the transport is: the header, the management-key, label and algorithm fields, then
  exactly two key fields, the encryption half and then the MAC half, then the password and
  touch fields. The two halves have \<open>key_len div 2\<close> bytes each, whatever the parity of
  \<open>key_len\<close>. Their concatenation is the first \<open>2 * (key_len div 2)\<close> bytes of the
  key material: all \<open>key_len\<close> bytes when \<open>key_len\<close> is even, all but the last when
  it is odd.
\<close>

lemma put_aes_key_fields:
  assumes ok: "\<not> put_invalid c (Some st) (Some mk) mgmkey_len (Some lb) (Some k) key_len
                  (Some pw) cpw_len"
    and run: "ykhsmauth_put c (Some st) (Some mk) mgmkey_len (Some lb)
                (YKHSMAUTH_YUBICO_AES128_ALGO c) (Some k) key_len (Some pw) cpw_len tp retries =
              Some r"
    and small: "YKHSMAUTH_YUBICO_ECP256_PRIVKEY_LEN c < 65536"
  shows "(\<exists>n. sent r =
     [[0, YKHSMAUTH_INS_PUT c, 0, 0, n] @
      field_bytes (YKHSMAUTH_TAG_MGMKEY c) mk (of_nat mgmkey_len) 0 @
      field_bytes (YKHSMAUTH_TAG_LABEL c) lb (of_nat (length lb)) 0 @
      field_bytes (YKHSMAUTH_TAG_ALGO c) [YKHSMAUTH_YUBICO_AES128_ALGO c] 1 0 @
      tlv (YKHSMAUTH_TAG_KEY_ENC c) (take (key_len div 2) k) @
      tlv (YKHSMAUTH_TAG_KEY_MAC c) (take (key_len div 2) (drop (key_len div 2) k)) @
      field_bytes (YKHSMAUTH_TAG_PW c) pw (of_nat cpw_len) (of_nat (YKHSMAUTH_PW_LEN c - cpw_len)) @
      field_bytes (YKHSMAUTH_TAG_TOUCH c) [tp] 1 0]) \<and>
     length (take (key_len div 2) k) = key_len div 2 \<and>
     length (take (key_len div 2) (drop (key_len div 2) k)) = key_len div 2 \<and>
     take (key_len div 2) k @ take (key_len div 2) (drop (key_len div 2) k) =
       take (2 * (key_len div 2)) k \<and>
     (even key_len \<longrightarrow>
        take (key_len div 2) k @ take (key_len div 2) (drop (key_len div 2) k) = take key_len k) \<and>
     (odd key_len \<longrightarrow>
        take (key_len div 2) k @ take (key_len div 2) (drop (key_len div 2) k) =
          take (key_len - 1) k)"
proof -
  let ?h = "key_len div 2"
  from ok have kl: "key_len \<le> YKHSMAUTH_YUBICO_ECP256_PRIVKEY_LEN c"
    by (simp add: put_invalid_def)
  with small have h16: "?h < 65536" by simp
  from run ok obtain a where
    a: "put_apdu c mk mgmkey_len lb (YKHSMAUTH_YUBICO_AES128_ALGO c) k key_len pw cpw_len tp = Some a"
    and r: "r = send_and_check c st a retries"
    by (auto simp add: ykhsmauth_put_def split: Option.bind_splits)
  note L = put_apdu_layout[OF a]
  from L(4) h16 have "?h \<le> length (drop ?h k)" by (simp add: unat_of_nat16)
  then have h1: "?h \<le> length k" and h2: "?h \<le> length (drop ?h k)" by simp_all
  have f1: "field_bytes (YKHSMAUTH_TAG_KEY_ENC c) k (of_nat ?h) 0 =
      tlv (YKHSMAUTH_TAG_KEY_ENC c) (take ?h k)"
    using field_bytes_tlv[OF h1, of 0 "YKHSMAUTH_TAG_KEY_ENC c"] h16 by simp
  have f2: "field_bytes (YKHSMAUTH_TAG_KEY_MAC c) (drop ?h k) (of_nat ?h) 0 =
      tlv (YKHSMAUTH_TAG_KEY_MAC c) (take ?h (drop ?h k))"
    using field_bytes_tlv[OF h2, of 0 "YKHSMAUTH_TAG_KEY_MAC c"] h16 by simp
  have "take ?h k @ take ?h (drop ?h k) = take (?h + ?h) k"
    by (simp add: take_add)
  then have cat: "take ?h k @ take ?h (drop ?h k) = take (2 * ?h) k"
    by (simp only: mult_2)
  have ev: "even key_len \<Longrightarrow> 2 * ?h = key_len" by (auto elim: evenE)
  have od: "odd key_len \<Longrightarrow> 2 * ?h = key_len - 1" by (auto elim: oddE)
  have "sent r =
     [[0, YKHSMAUTH_INS_PUT c, 0, 0, lc a] @
      field_bytes (YKHSMAUTH_TAG_MGMKEY c) mk (of_nat mgmkey_len) 0 @
      field_bytes (YKHSMAUTH_TAG_LABEL c) lb (of_nat (length lb)) 0 @
      field_bytes (YKHSMAUTH_TAG_ALGO c) [YKHSMAUTH_YUBICO_AES128_ALGO c] 1 0 @
      tlv (YKHSMAUTH_TAG_KEY_ENC c) (take ?h k) @
      tlv (YKHSMAUTH_TAG_KEY_MAC c) (take ?h (drop ?h k)) @
      field_bytes (YKHSMAUTH_TAG_PW c) pw (of_nat cpw_len) (of_nat (YKHSMAUTH_PW_LEN c - cpw_len)) @
      field_bytes (YKHSMAUTH_TAG_TOUCH c) [tp] 1 0]"
    unfolding r send_and_check_sent L(1) by (simp add: put_key_fields_def f1 f2)
  then have lay: "\<exists>n. sent r =
     [[0, YKHSMAUTH_INS_PUT c, 0, 0, n] @
      field_bytes (YKHSMAUTH_TAG_MGMKEY c) mk (of_nat mgmkey_len) 0 @
      field_bytes (YKHSMAUTH_TAG_LABEL c) lb (of_nat (length lb)) 0 @
      field_bytes (YKHSMAUTH_TAG_ALGO c) [YKHSMAUTH_YUBICO_AES128_ALGO c] 1 0 @
      tlv (YKHSMAUTH_TAG_KEY_ENC c) (take ?h k) @
      tlv (YKHSMAUTH_TAG_KEY_MAC c) (take ?h (drop ?h k)) @
      field_bytes (YKHSMAUTH_TAG_PW c) pw (of_nat cpw_len) (of_nat (YKHSMAUTH_PW_LEN c - cpw_len)) @
      field_bytes (YKHSMAUTH_TAG_TOUCH c) [tp] 1 0]"
    by blast
  have l1: "length (take ?h k) = ?h" using h1 by simp
  have l2: "length (take ?h (drop ?h k)) = ?h" using h2 by (simp add: min_def)
  have c1: "even key_len \<longrightarrow> take ?h k @ take ?h (drop ?h k) = take key_len k"
    using cat ev by simp
  have c2: "odd key_len \<longrightarrow> take ?h k @ take ?h (drop ?h k) = take (key_len - 1) k"
    using cat od by simp
  from lay l1 l2 cat c1 c2 show ?thesis by (intro conjI)
qed

text \<open>
  C9 fails on the code. The argument check of \<^verbatim>\<open>ykhsmauth_put\<close> bounds
  \<^verbatim>\<open>key_len\<close> only from above, so it accepts a key of odd length, and the two key
  fields take \<^verbatim>\<open>key_len / 2\<close> bytes each: the last byte of the key is in neither.
  Here a 3-byte key \<open>1, 2, 3\<close> is stored with the symmetric algorithm (38): the call
  succeeds, and the frame carries the encryption half \<open>0x75, 1, 1\<close> and the MAC half
  \<open>0x76, 1, 2\<close>, and no byte 3. The same call with the elliptic-curve algorithm (39)
  sends the whole key, \<open>0x7d, 3, 1, 2, 3\<close>.
\<close>

theorem put_odd_key_drops_byte:
  "ykhsmauth_put yubico_headers (Some \<lparr>verbose = 0, card = \<lambda>_. Some [0x90, 0]\<rparr>)
     (Some (replicate 16 0)) 16 (Some [0x61]) 38 (Some [1, 2, 3]) 3 (Some []) 0 0 False =
   Some \<lparr>rc = YKHSMAUTHR_SUCCESS,
         sent = [[0, 1, 0, 0, 51, 0x7b, 16] @ replicate 16 0 @
                 [0x71, 1, 0x61, 0x74, 1, 38, 0x75, 1, 1, 0x76, 1, 2, 0x73, 16] @
                 replicate 16 0 @ [0x7a, 1, 0]],
         retries_out = None\<rparr> \<and>
   ykhsmauth_put yubico_headers (Some \<lparr>verbose = 0, card = \<lambda>_. Some [0x90, 0]\<rparr>)
     (Some (replicate 16 0)) 16 (Some [0x61]) 39 (Some [1, 2, 3]) 3 (Some []) 0 0 False =
   Some \<lparr>rc = YKHSMAUTHR_SUCCESS,
         sent = [[0, 1, 0, 0, 50, 0x7b, 16] @ replicate 16 0 @
                 [0x71, 1, 0x61, 0x74, 1, 39, 0x7d, 3, 1, 2, 3, 0x73, 16] @
                 replicate 16 0 @ [0x7a, 1, 0]],
         retries_out = None\<rparr>"
  by (simp add: ykhsmauth_put_def put_invalid_def label_invalid_def put_apdu_def add_tag_store
        field_bytes_def encode_len_def store_at_def apdu_init_def APDU_DATA_LEN_def
        send_and_check_def send_data_def wire_bytes_def apdu_raw_def
        yubico_headers_def)

section \<open>C4: invalid input never reaches the wire\<close>

text \<open>
  C4. A label is invalid when it is null, shorter than \<open>MIN_LABEL_LEN\<close> or longer than
  \<open>MAX_LABEL_LEN\<close>. Store, delete, derive session keys, get challenge and get public key
  return \<open>INVALID_PARAMS\<close> for every invalid label, and so does every operation for
  every other precondition it checks (a null state or a null required pointer, a management
  key whose length is not \<open>PW_LEN\<close>, a password or key longer than its bound, an
  output length that is wrong or too small). In each case nothing is given to the
  transport (\<open>sent\<close> is empty) and nothing is stored through an output pointer.
\<close>

theorem invalid_input_never_sent:
  "(state = None \<or> mgmkey = None \<or> mgmkey_len \<noteq> YKHSMAUTH_PW_LEN c \<or> label_invalid c lbl \<or>
    key = None \<or> key_len > YKHSMAUTH_YUBICO_ECP256_PRIVKEY_LEN c \<or> cpw = None \<or>
    cpw_len > YKHSMAUTH_PW_LEN c \<longrightarrow>
      ykhsmauth_put c state mgmkey mgmkey_len lbl algo key key_len cpw cpw_len tp retries =
        Some \<lparr>rc = YKHSMAUTHR_INVALID_PARAMS, sent = [], retries_out = None\<rparr>) \<and>
   (state = None \<or> mgmkey = None \<or> mgmkey_len \<noteq> YKHSMAUTH_PW_LEN c \<or> label_invalid c lbl \<longrightarrow>
      ykhsmauth_delete c state mgmkey mgmkey_len lbl retries =
        Some \<lparr>rc = YKHSMAUTHR_INVALID_PARAMS, sent = [], retries_out = None\<rparr>) \<and>
   (state = None \<or> label_invalid c lbl \<or> ctx = None \<or>
    context_len > 2 * YKHSMAUTH_YUBICO_ECP256_PUBKEY_LEN c \<or>
    card_pubkey_len > YKHSMAUTH_YUBICO_ECP256_PUBKEY_LEN c \<or>
    card_crypto_len > YKHSMAUTH_SESSION_KEY_LEN c \<or> cpw = None \<or>
    cpw_len > YKHSMAUTH_PW_LEN c \<or> kse = False \<or> kse_len \<noteq> YKHSMAUTH_SESSION_KEY_LEN c \<or>
    ksm = False \<or> ksm_len \<noteq> YKHSMAUTH_SESSION_KEY_LEN c \<or> ksr = False \<or>
    ksr_len \<noteq> YKHSMAUTH_SESSION_KEY_LEN c \<longrightarrow>
      ykhsmauth_calculate c state lbl ctx context_len card_pubkey card_pubkey_len
        card_crypto card_crypto_len cpw cpw_len kse kse_len ksm ksm_len ksr ksr_len retries =
        Some \<lparr>rc = YKHSMAUTHR_INVALID_PARAMS, sent = [], retries_out = None,
              key_s_enc_out = None, key_s_mac_out = None, key_s_rmac_out = None\<rparr>) \<and>
   (state = None \<or> label_invalid c lbl \<or> dst = False \<or> dst_len = None \<or>
    (\<exists>n. dst_len = Some n \<and> n < YKHSMAUTH_YUBICO_ECP256_PUBKEY_LEN c) \<longrightarrow>
      ykhsmauth_get_challenge c state lbl dst dst_len =
        Some \<lparr>rc = YKHSMAUTHR_INVALID_PARAMS, sent = [], blob_out = None, blob_len_out = None\<rparr> \<and>
      ykhsmauth_get_pubkey c state lbl dst dst_len =
        Some \<lparr>rc = YKHSMAUTHR_INVALID_PARAMS, sent = [], blob_out = None, blob_len_out = None\<rparr>) \<and>
   (state = None \<or> mgmkey = None \<or> mgmkey_len \<noteq> YKHSMAUTH_PW_LEN c \<or> new_mgmkey = None \<or>
    new_mgmkey_len \<noteq> YKHSMAUTH_PW_LEN c \<longrightarrow>
      ykhsmauth_put_mgmkey c state mgmkey mgmkey_len new_mgmkey new_mgmkey_len retries =
        Some \<lparr>rc = YKHSMAUTHR_INVALID_PARAMS, sent = [], retries_out = None\<rparr>) \<and>
   (state = None \<or> retries = False \<longrightarrow>
      ykhsmauth_get_mgmkey_retries c state retries =
        \<lparr>rc = YKHSMAUTHR_INVALID_PARAMS, sent = [], retries_out = None\<rparr>) \<and>
   (state = None \<or> list_items = None \<longrightarrow>
      ykhsmauth_list_keys c state list list_items =
        \<lparr>rc = YKHSMAUTHR_INVALID_PARAMS, sent = [], list_out = list, list_items_out = None\<rparr>) \<and>
   (state = None \<longrightarrow>
      ykhsmauth_reset c state = \<lparr>rc = YKHSMAUTHR_INVALID_PARAMS, sent = []\<rparr>) \<and>
   (label_invalid c lbl \<longleftrightarrow>
      lbl = None \<or> (\<exists>l. lbl = Some l \<and>
        (length l < YKHSMAUTH_MIN_LABEL_LEN c \<or> length l > YKHSMAUTH_MAX_LABEL_LEN c)))"
proof -
  have put: "state = None \<or> mgmkey = None \<or> mgmkey_len \<noteq> YKHSMAUTH_PW_LEN c \<or> label_invalid c lbl \<or>
    key = None \<or> key_len > YKHSMAUTH_YUBICO_ECP256_PRIVKEY_LEN c \<or> cpw = None \<or>
    cpw_len > YKHSMAUTH_PW_LEN c \<longrightarrow>
      ykhsmauth_put c state mgmkey mgmkey_len lbl algo key key_len cpw cpw_len tp retries =
        Some \<lparr>rc = YKHSMAUTHR_INVALID_PARAMS, sent = [], retries_out = None\<rparr>"
    by (simp add: ykhsmauth_put_def put_invalid_def invalid_params_def)
  have del: "state = None \<or> mgmkey = None \<or> mgmkey_len \<noteq> YKHSMAUTH_PW_LEN c \<or> label_invalid c lbl \<longrightarrow>
      ykhsmauth_delete c state mgmkey mgmkey_len lbl retries =
        Some \<lparr>rc = YKHSMAUTHR_INVALID_PARAMS, sent = [], retries_out = None\<rparr>"
    by (simp add: ykhsmauth_delete_def delete_invalid_def invalid_params_def)
  have calc: "state = None \<or> label_invalid c lbl \<or> ctx = None \<or>
    context_len > 2 * YKHSMAUTH_YUBICO_ECP256_PUBKEY_LEN c \<or>
    card_pubkey_len > YKHSMAUTH_YUBICO_ECP256_PUBKEY_LEN c \<or>
    card_crypto_len > YKHSMAUTH_SESSION_KEY_LEN c \<or> cpw = None \<or>
    cpw_len > YKHSMAUTH_PW_LEN c \<or> kse = False \<or> kse_len \<noteq> YKHSMAUTH_SESSION_KEY_LEN c \<or>
    ksm = False \<or> ksm_len \<noteq> YKHSMAUTH_SESSION_KEY_LEN c \<or> ksr = False \<or>
    ksr_len \<noteq> YKHSMAUTH_SESSION_KEY_LEN c \<longrightarrow>
      ykhsmauth_calculate c state lbl ctx context_len card_pubkey card_pubkey_len
        card_crypto card_crypto_len cpw cpw_len kse kse_len ksm ksm_len ksr ksr_len retries =
        Some \<lparr>rc = YKHSMAUTHR_INVALID_PARAMS, sent = [], retries_out = None,
              key_s_enc_out = None, key_s_mac_out = None, key_s_rmac_out = None\<rparr>"
    by (simp add: ykhsmauth_calculate_def calculate_invalid_def calculate_invalid_params_def)
  have blob: "state = None \<or> label_invalid c lbl \<or> dst = False \<or> dst_len = None \<or>
    (\<exists>n. dst_len = Some n \<and> n < YKHSMAUTH_YUBICO_ECP256_PUBKEY_LEN c) \<longrightarrow>
      ykhsmauth_get_challenge c state lbl dst dst_len =
        Some \<lparr>rc = YKHSMAUTHR_INVALID_PARAMS, sent = [], blob_out = None, blob_len_out = None\<rparr> \<and>
      ykhsmauth_get_pubkey c state lbl dst dst_len =
        Some \<lparr>rc = YKHSMAUTHR_INVALID_PARAMS, sent = [], blob_out = None, blob_len_out = None\<rparr>"
    by (auto simp add: ykhsmauth_get_challenge_def ykhsmauth_get_pubkey_def get_blob_def
        get_blob_invalid_def)
  have mgm: "state = None \<or> mgmkey = None \<or> mgmkey_len \<noteq> YKHSMAUTH_PW_LEN c \<or> new_mgmkey = None \<or>
    new_mgmkey_len \<noteq> YKHSMAUTH_PW_LEN c \<longrightarrow>
      ykhsmauth_put_mgmkey c state mgmkey mgmkey_len new_mgmkey new_mgmkey_len retries =
        Some \<lparr>rc = YKHSMAUTHR_INVALID_PARAMS, sent = [], retries_out = None\<rparr>"
    by (simp add: ykhsmauth_put_mgmkey_def put_mgmkey_invalid_def invalid_params_def)
  have ret: "state = None \<or> retries = False \<longrightarrow>
      ykhsmauth_get_mgmkey_retries c state retries =
        \<lparr>rc = YKHSMAUTHR_INVALID_PARAMS, sent = [], retries_out = None\<rparr>"
    by (simp add: ykhsmauth_get_mgmkey_retries_def invalid_params_def split: option.splits)
  have lst: "state = None \<or> list_items = None \<longrightarrow>
      ykhsmauth_list_keys c state list list_items =
        \<lparr>rc = YKHSMAUTHR_INVALID_PARAMS, sent = [], list_out = list, list_items_out = None\<rparr>"
    by (auto simp add: ykhsmauth_list_keys_def split: option.splits)
  have rst: "state = None \<longrightarrow>
      ykhsmauth_reset c state = \<lparr>rc = YKHSMAUTHR_INVALID_PARAMS, sent = []\<rparr>"
    by (simp add: ykhsmauth_reset_def)
  have lab: "label_invalid c lbl \<longleftrightarrow>
      lbl = None \<or> (\<exists>l. lbl = Some l \<and>
        (length l < YKHSMAUTH_MIN_LABEL_LEN c \<or> length l > YKHSMAUTH_MAX_LABEL_LEN c))"
    by (cases lbl) (simp_all add: label_invalid_def)
  from put del calc blob mgm ret lst rst lab show ?thesis by (intro conjI)
qed

theorem invalid_input_never_sent_witness:
  "ykhsmauth_put yubico_headers (Some \<lparr>verbose = 0, card = \<lambda>_. Some [0x90, 0]\<rparr>)
     (Some (replicate 16 0)) 16 (Some []) 38 (Some (replicate 32 1)) 32 (Some [0x31]) 1 0 False =
     Some \<lparr>rc = YKHSMAUTHR_INVALID_PARAMS, sent = [], retries_out = None\<rparr> \<and>
   ykhsmauth_delete yubico_headers (Some \<lparr>verbose = 0, card = \<lambda>_. Some [0x90, 0]\<rparr>)
     (Some (replicate 16 0)) 16 (Some []) False =
     Some \<lparr>rc = YKHSMAUTHR_INVALID_PARAMS, sent = [], retries_out = None\<rparr> \<and>
   ykhsmauth_calculate yubico_headers (Some \<lparr>verbose = 0, card = \<lambda>_. Some [0x90, 0]\<rparr>)
     (Some []) (Some (replicate 16 7)) 16 None 0 None 0 (Some [0x31]) 1
     True 16 True 16 True 16 False =
     Some \<lparr>rc = YKHSMAUTHR_INVALID_PARAMS, sent = [], retries_out = None,
           key_s_enc_out = None, key_s_mac_out = None, key_s_rmac_out = None\<rparr> \<and>
   ykhsmauth_get_challenge yubico_headers (Some \<lparr>verbose = 0, card = \<lambda>_. Some [0x90, 0]\<rparr>)
     (Some []) True (Some 65) =
     Some \<lparr>rc = YKHSMAUTHR_INVALID_PARAMS, sent = [], blob_out = None, blob_len_out = None\<rparr> \<and>
   ykhsmauth_get_pubkey yubico_headers (Some \<lparr>verbose = 0, card = \<lambda>_. Some [0x90, 0]\<rparr>)
     (Some []) True (Some 65) =
     Some \<lparr>rc = YKHSMAUTHR_INVALID_PARAMS, sent = [], blob_out = None, blob_len_out = None\<rparr> \<and>
   ykhsmauth_put_mgmkey yubico_headers (Some \<lparr>verbose = 0, card = \<lambda>_. Some [0x90, 0]\<rparr>)
     (Some (replicate 16 0)) 16 (Some (replicate 15 1)) 15 False =
     Some \<lparr>rc = YKHSMAUTHR_INVALID_PARAMS, sent = [], retries_out = None\<rparr> \<and>
   ykhsmauth_put yubico_headers (Some \<lparr>verbose = 0, card = \<lambda>_. Some [0x90, 0]\<rparr>)
     (Some (replicate 16 0)) 16 (Some (replicate 65 0x61)) 38 (Some (replicate 32 1)) 32
     (Some [0x31]) 1 0 False =
     Some \<lparr>rc = YKHSMAUTHR_INVALID_PARAMS, sent = [], retries_out = None\<rparr>"
proof -
  let ?st = "Some \<lparr>verbose = 0, card = \<lambda>_. Some [0x90, 0 :: byte]\<rparr>"
  note short = invalid_input_never_sent[where c = yubico_headers and state = ?st
      and mgmkey = "Some (replicate 16 0)" and mgmkey_len = 16 and lbl = "Some []"
      and algo = 38 and key = "Some (replicate 32 1)" and key_len = 32
      and cpw = "Some [0x31]" and cpw_len = 1 and tp = 0 and retries = False
      and ctx = "Some (replicate 16 7)" and context_len = 16
      and card_pubkey = None and card_pubkey_len = 0 and card_crypto = None
      and card_crypto_len = 0 and kse = True and kse_len = 16 and ksm = True and ksm_len = 16
      and ksr = True and ksr_len = 16 and dst = True and dst_len = "Some 65"
      and new_mgmkey = "Some (replicate 15 1)" and new_mgmkey_len = 15
      and list = None and list_items = None]
  note long = invalid_input_never_sent[where c = yubico_headers and state = ?st
      and mgmkey = "Some (replicate 16 0)" and mgmkey_len = 16
      and lbl = "Some (replicate 65 0x61)"
      and algo = 38 and key = "Some (replicate 32 1)" and key_len = 32
      and cpw = "Some [0x31]" and cpw_len = 1 and tp = 0 and retries = False
      and ctx = "Some (replicate 16 7)" and context_len = 16
      and card_pubkey = None and card_pubkey_len = 0 and card_crypto = None
      and card_crypto_len = 0 and kse = True and kse_len = 16 and ksm = True and ksm_len = 16
      and ksr = True and ksr_len = 16 and dst = True and dst_len = "Some 65"
      and new_mgmkey = "Some (replicate 15 1)" and new_mgmkey_len = 15
      and list = None and list_items = None]
  have s: "label_invalid yubico_headers (Some [])"
    and l: "label_invalid yubico_headers (Some (replicate 65 0x61))"
    and k: "YKHSMAUTH_PW_LEN yubico_headers = 16"
    by (simp_all add: label_invalid_def yubico_headers_def)
  show ?thesis
    using short long by (simp add: s l k)
qed

section \<open>C3: the fields of derive-session-keys can leave the frame\<close>

text \<open>
  With the constants of \<open>yubico_headers\<close> the fields of store, delete, put management key,
  get challenge and get public key always fit the 255 bytes of the frame, whatever input
  their checks accept (the caller's buffers holding the lengths passed with them).
\<close>

lemma add_tag_small:
  assumes inv: "length (data a) = APDU_DATA_LEN" and src: "n \<le> length dat"
    and short: "n + p \<le> 127" and room: "unat (lc a) + (2 + n + p) \<le> 255"
  shows "\<exists>a'. add_tag a tag dat (of_nat n) (of_nat p) = Some a' \<and>
           length (data a') = APDU_DATA_LEN \<and> unat (lc a') = unat (lc a) + (2 + n + p)"
proof -
  let ?f = "field_bytes tag dat (of_nat n) (of_nat p)"
  from short have un: "unat (of_nat n :: 16 word) = n" and up: "unat (of_nat p :: 16 word) = p"
    by (simp_all add: unat_of_nat16)
  have us: "unat ((of_nat n :: 16 word) + of_nat p) = n + p"
    using unat_of_nat16[of "n + p"] short by simp
  with short have "\<not> (of_nat n :: 16 word) + of_nat p > 0x7f"
    "\<not> (of_nat n :: 16 word) + of_nat p > 0xff"
    by (simp_all add: word_less_nat_alt)
  then have enc: "length (fst (encode_len (of_nat n + of_nat p))) = 1"
    by (simp add: encode_len_def)
  from src have fl: "length ?f = 2 + n + p"
    unfolding field_bytes_def by (simp add: enc un up)
  from room inv obtain d where d: "store_at (data a) (unat (lc a)) ?f = Some d"
    by (simp add: store_at_def fl APDU_DATA_LEN_def)
  let ?a' = "a\<lparr>data := d, lc := of_nat (unat (lc a) + length ?f)\<rparr>"
  from src have run: "add_tag a tag dat (of_nat n) (of_nat p) = Some ?a'"
    by (simp add: add_tag_store un d)
  from room have "unat (of_nat (unat (lc a) + (2 + n + p)) :: byte) = unat (lc a) + (2 + n + p)"
    by (intro of_nat_inverse[OF refl]) simp
  then have "unat (lc ?a') = unat (lc a) + (2 + n + p)" by (simp add: fl)
  moreover have "length (data ?a') = APDU_DATA_LEN"
    using store_at_length[OF d] inv by simp
  ultimately show ?thesis using run by blast
qed

lemma put_frame_fits:
  assumes ok: "\<not> put_invalid yubico_headers (Some st) (Some mk) mgmkey_len (Some lb) (Some k)
                  key_len (Some pw) cpw_len"
    and mem: "mgmkey_len \<le> length mk" "key_len \<le> length k" "cpw_len \<le> length pw"
  shows "put_apdu yubico_headers mk mgmkey_len lb algo k key_len pw cpw_len tp \<noteq> None"
proof -
  let ?c = yubico_headers
  from ok have b: "mgmkey_len = 16" "length lb \<le> 64" "key_len \<le> 32" "cpw_len \<le> 16"
    by (simp_all add: put_invalid_def label_invalid_def yubico_headers_def)
  have pw: "YKHSMAUTH_PW_LEN ?c = 16" by (simp add: yubico_headers_def)
  from add_tag_small[of "apdu_init (YKHSMAUTH_INS_PUT ?c) 0 0" mgmkey_len mk 0
      "YKHSMAUTH_TAG_MGMKEY ?c"] b mem
  obtain a1 where s1: "add_tag (apdu_init (YKHSMAUTH_INS_PUT ?c) 0 0)
             (YKHSMAUTH_TAG_MGMKEY ?c) mk (of_nat mgmkey_len) 0 = Some a1"
    and i1: "length (data a1) = APDU_DATA_LEN" and l1: "unat (lc a1) = 18"
    by (auto simp add: apdu_init_def)
  from add_tag_small[OF i1, of "length lb" lb 0 "YKHSMAUTH_TAG_LABEL ?c"] b l1
  obtain a2 where s2: "add_tag a1 (YKHSMAUTH_TAG_LABEL ?c) lb (of_nat (length lb)) 0 = Some a2"
    and i2: "length (data a2) = APDU_DATA_LEN" and l2: "unat (lc a2) = 20 + length lb"
    by auto
  from add_tag_small[OF i2, of 1 "[algo]" 0 "YKHSMAUTH_TAG_ALGO ?c"] b l2
  obtain a3 where s3: "add_tag a2 (YKHSMAUTH_TAG_ALGO ?c) [algo] 1 0 = Some a3"
    and i3: "length (data a3) = APDU_DATA_LEN" and l3: "unat (lc a3) = 23 + length lb"
    by auto
  have "\<exists>a4. (if algo = YKHSMAUTH_YUBICO_AES128_ALGO ?c then do {
              b \<leftarrow> add_tag a3 (YKHSMAUTH_TAG_KEY_ENC ?c) k (of_nat (key_len div 2)) 0;
              add_tag b (YKHSMAUTH_TAG_KEY_MAC ?c) (drop (key_len div 2) k)
                (of_nat (key_len div 2)) 0 }
            else if algo = YKHSMAUTH_YUBICO_ECP256_ALGO ?c
            then add_tag a3 (YKHSMAUTH_TAG_PRIVKEY ?c) k (of_nat key_len) 0
            else Some a3) = Some a4 \<and>
          length (data a4) = APDU_DATA_LEN \<and> unat (lc a4) \<le> 59 + length lb"
  proof -
    consider (aes) "algo = YKHSMAUTH_YUBICO_AES128_ALGO ?c"
      | (ecp) "algo \<noteq> YKHSMAUTH_YUBICO_AES128_ALGO ?c" "algo = YKHSMAUTH_YUBICO_ECP256_ALGO ?c"
      | (other) "algo \<noteq> YKHSMAUTH_YUBICO_AES128_ALGO ?c" "algo \<noteq> YKHSMAUTH_YUBICO_ECP256_ALGO ?c"
      by blast
    then show ?thesis
    proof cases
      case aes
      let ?h = "key_len div 2"
      from b mem have h: "?h \<le> 16" "?h \<le> length k" "?h \<le> length (drop ?h k)" by simp_all
      from add_tag_small[OF i3, of ?h k 0 "YKHSMAUTH_TAG_KEY_ENC ?c"] h b l3
      obtain e where se: "add_tag a3 (YKHSMAUTH_TAG_KEY_ENC ?c) k (of_nat ?h) 0 = Some e"
        and ie: "length (data e) = APDU_DATA_LEN" and le: "unat (lc e) = 25 + length lb + ?h"
        by auto
      from add_tag_small[OF ie, of ?h "drop ?h k" 0 "YKHSMAUTH_TAG_KEY_MAC ?c"] h b le
      obtain m where sm: "add_tag e (YKHSMAUTH_TAG_KEY_MAC ?c) (drop ?h k) (of_nat ?h) 0 = Some m"
        and im: "length (data m) = APDU_DATA_LEN"
        and lm: "unat (lc m) = 27 + length lb + ?h + ?h"
        by auto
      from lm h have "unat (lc m) \<le> 59 + length lb" by simp
      with aes se sm im show ?thesis by simp
    next
      case ecp
      from add_tag_small[OF i3, of key_len k 0 "YKHSMAUTH_TAG_PRIVKEY ?c"] b mem l3
      obtain e where se: "add_tag a3 (YKHSMAUTH_TAG_PRIVKEY ?c) k (of_nat key_len) 0 = Some e"
        and ie: "length (data e) = APDU_DATA_LEN" and le: "unat (lc e) = 25 + length lb + key_len"
        by auto
      from le b have "unat (lc e) \<le> 59 + length lb" by simp
      with ecp se ie show ?thesis by simp
    next
      case other
      with i3 l3 show ?thesis by simp
    qed
  qed
  then obtain a4 where s4: "(if algo = YKHSMAUTH_YUBICO_AES128_ALGO ?c then do {
              b \<leftarrow> add_tag a3 (YKHSMAUTH_TAG_KEY_ENC ?c) k (of_nat (key_len div 2)) 0;
              add_tag b (YKHSMAUTH_TAG_KEY_MAC ?c) (drop (key_len div 2) k)
                (of_nat (key_len div 2)) 0 }
            else if algo = YKHSMAUTH_YUBICO_ECP256_ALGO ?c
            then add_tag a3 (YKHSMAUTH_TAG_PRIVKEY ?c) k (of_nat key_len) 0
            else Some a3) = Some a4"
    and i4: "length (data a4) = APDU_DATA_LEN" and l4: "unat (lc a4) \<le> 59 + length lb"
    by blast
  from add_tag_small[OF i4, of cpw_len pw "16 - cpw_len" "YKHSMAUTH_TAG_PW ?c"] b mem l4
  obtain a5 where s5: "add_tag a4 (YKHSMAUTH_TAG_PW ?c) pw (of_nat cpw_len)
             (of_nat (YKHSMAUTH_PW_LEN ?c - cpw_len)) = Some a5"
    and i5: "length (data a5) = APDU_DATA_LEN" and l5: "unat (lc a5) \<le> 77 + length lb"
    unfolding pw by auto
  from add_tag_small[OF i5, of 1 "[tp]" 0 "YKHSMAUTH_TAG_TOUCH ?c"] b l5
  obtain a6 where s6: "add_tag a5 (YKHSMAUTH_TAG_TOUCH ?c) [tp] 1 0 = Some a6"
    by auto
  show ?thesis
    unfolding put_apdu_def by (simp only: s1 s2 s3 s4 s5 s6 bind.bind_lunit) simp
qed

lemma delete_frame_fits:
  assumes ok: "\<not> delete_invalid yubico_headers (Some st) (Some mk) mgmkey_len (Some lb)"
    and mem: "mgmkey_len \<le> length mk"
  shows "delete_apdu yubico_headers mk mgmkey_len lb \<noteq> None"
proof -
  let ?c = yubico_headers
  from ok have b: "mgmkey_len = 16" "length lb \<le> 64"
    by (simp_all add: delete_invalid_def label_invalid_def yubico_headers_def)
  from add_tag_small[of "apdu_init (YKHSMAUTH_INS_DELETE ?c) 0 0" mgmkey_len mk 0
      "YKHSMAUTH_TAG_MGMKEY ?c"] b mem
  obtain a1 where s1: "add_tag (apdu_init (YKHSMAUTH_INS_DELETE ?c) 0 0)
             (YKHSMAUTH_TAG_MGMKEY ?c) mk (of_nat mgmkey_len) 0 = Some a1"
    and i1: "length (data a1) = APDU_DATA_LEN" and l1: "unat (lc a1) = 18"
    by (auto simp add: apdu_init_def)
  from add_tag_small[OF i1, of "length lb" lb 0 "YKHSMAUTH_TAG_LABEL ?c"] b l1
  obtain a2 where s2: "add_tag a1 (YKHSMAUTH_TAG_LABEL ?c) lb (of_nat (length lb)) 0 = Some a2"
    by auto
  show ?thesis
    unfolding delete_apdu_def by (simp only: s1 s2 bind.bind_lunit) simp
qed

lemma put_mgmkey_frame_fits:
  assumes ok: "\<not> put_mgmkey_invalid yubico_headers (Some st) (Some mk) mgmkey_len (Some nk)
                  new_mgmkey_len"
    and mem: "mgmkey_len \<le> length mk" "new_mgmkey_len \<le> length nk"
  shows "put_mgmkey_apdu yubico_headers mk mgmkey_len nk new_mgmkey_len \<noteq> None"
proof -
  let ?c = yubico_headers
  from ok have b: "mgmkey_len = 16" "new_mgmkey_len = 16"
    by (simp_all add: put_mgmkey_invalid_def yubico_headers_def)
  from add_tag_small[of "apdu_init (YKHSMAUTH_INS_PUT_MGMKEY ?c) 0 0" mgmkey_len mk 0
      "YKHSMAUTH_TAG_MGMKEY ?c"] b mem
  obtain a1 where s1: "add_tag (apdu_init (YKHSMAUTH_INS_PUT_MGMKEY ?c) 0 0)
             (YKHSMAUTH_TAG_MGMKEY ?c) mk (of_nat mgmkey_len) 0 = Some a1"
    and i1: "length (data a1) = APDU_DATA_LEN" and l1: "unat (lc a1) = 18"
    by (auto simp add: apdu_init_def)
  from add_tag_small[OF i1, of new_mgmkey_len nk 0 "YKHSMAUTH_TAG_MGMKEY ?c"] b mem l1
  obtain a2 where s2: "add_tag a1 (YKHSMAUTH_TAG_MGMKEY ?c) nk (of_nat new_mgmkey_len) 0 = Some a2"
    by auto
  show ?thesis
    unfolding put_mgmkey_apdu_def by (simp only: s1 s2 bind.bind_lunit) simp
qed

lemma get_blob_frame_fits:
  "get_blob yubico_headers i state lbl dst dst_len \<noteq> None"
proof (cases "get_blob_invalid yubico_headers state lbl dst dst_len")
  case True
  then show ?thesis by (simp add: get_blob_def)
next
  case False
  then obtain st lb where args: "state = Some st" "lbl = Some lb" and b: "length lb \<le> 64"
    by (auto simp add: get_blob_invalid_def label_invalid_def yubico_headers_def
        split: option.splits)
  from add_tag_small[of "apdu_init i 0 0" "length lb" lb 0 "YKHSMAUTH_TAG_LABEL yubico_headers"] b
  obtain a1 where "add_tag (apdu_init i 0 0) (YKHSMAUTH_TAG_LABEL yubico_headers) lb
      (of_nat (length lb)) 0 = Some a1"
    by (auto simp add: apdu_init_def)
  with False show ?thesis by (simp add: get_blob_def args)
qed

text \<open>
  C3 fails on the code. With a 64-byte label, a 130-byte context, a 65-byte card public key
  and a 16-byte password, all within the bounds of the argument check of
  \<^verbatim>\<open>ykhsmauth_calculate\<close>, the label and context fields take 66 and 133 bytes and leave
  \<^verbatim>\<open>lc\<close> at 199; the 67 bytes of the public-key field, written from there, run past the
  255 bytes of the data buffer, and the operation has no defined result.
\<close>

theorem calculate_frame_overflow:
  "ykhsmauth_calculate yubico_headers (Some \<lparr>verbose = 0, card = \<lambda>_. None\<rparr>)
     (Some (replicate 64 0x61)) (Some (replicate 130 1)) 130 (Some (replicate 65 4)) 65
     None 0 (Some (replicate 16 0)) 16 True 16 True 16 True 16 False = None \<and>
   (add_tag (apdu_init 0x03 0 0) 0x71 (replicate 64 0x61) 64 0 \<bind>
      (\<lambda>a1. add_tag a1 0x77 (replicate 130 1) 130 0) \<bind>
      (\<lambda>a2. Some (unat (lc a2)))) = Some 199 \<and>
   length (field_bytes 0x7c (replicate 65 4) 65 0) = 67"
  by (simp add: ykhsmauth_calculate_def calculate_invalid_def label_invalid_def
      calculate_apdu_def add_tag_store field_bytes_def encode_len_def
      store_at_def apdu_init_def APDU_DATA_LEN_def yubico_headers_def)

section \<open>C7: the password field\<close>

text \<open>
  In store the password field is always there: with the constants of \<open>yubico_headers\<close>,
  every call that passes the argument check (the caller's buffers holding the lengths passed
  with them) hands the transport a frame that ends with the password field, padded with zero
  bytes to \<open>PW_LEN\<close>, and the touch-policy field.
\<close>

lemma put_password_field_sent:
  assumes ok: "\<not> put_invalid yubico_headers (Some st) (Some mk) mgmkey_len (Some lb) (Some k)
                  key_len (Some pw) p"
    and mem: "mgmkey_len \<le> length mk" "key_len \<le> length k" "p \<le> length pw"
  shows "\<exists>r pre. ykhsmauth_put yubico_headers (Some st) (Some mk) mgmkey_len (Some lb) algo
           (Some k) key_len (Some pw) p tp retries = Some r \<and>
         sent r = [pre @ tlv (YKHSMAUTH_TAG_PW yubico_headers)
                           (take p pw @ replicate (YKHSMAUTH_PW_LEN yubico_headers - p) 0) @
                         tlv (YKHSMAUTH_TAG_TOUCH yubico_headers) [tp]] \<and>
         length (take p pw @ replicate (YKHSMAUTH_PW_LEN yubico_headers - p) 0) =
           YKHSMAUTH_PW_LEN yubico_headers"
proof -
  let ?c = yubico_headers
  have small: "YKHSMAUTH_PW_LEN ?c < 65536" by (simp add: yubico_headers_def)
  from put_frame_fits[OF ok mem, of algo tp] obtain a where
    a: "put_apdu ?c mk mgmkey_len lb algo k key_len pw p tp = Some a"
    by blast
  with ok have run: "ykhsmauth_put ?c (Some st) (Some mk) mgmkey_len (Some lb) algo
           (Some k) key_len (Some pw) p tp retries = Some (send_and_check ?c st a retries)"
    by (simp add: ykhsmauth_put_def)
  from password_field_in_frame[OF small, THEN conjunct1, rule_format, OF conjI, OF ok run]
  show ?thesis using run by blast
qed

text \<open>
  C7 fails on the code, in derive-session-keys. With a 64-byte label, a 103-byte context,
  a 65-byte card public key and the 4-byte password \<open>1234\<close>, all within the bounds of the
  argument check of \<^verbatim>\<open>ykhsmauth_calculate\<close>, the label, context and public-key
  fields take 66, 105 and 67 bytes and leave \<^verbatim>\<open>lc\<close> at 238; the 18 bytes of the
  padded password field, written from there, end one byte past the 255 bytes of the data
  buffer. The operation has no defined result, and no frame with the padded password field
  is handed to the transport.
\<close>

theorem calculate_password_field_lost:
  "ykhsmauth_calculate yubico_headers (Some \<lparr>verbose = 0, card = \<lambda>_. None\<rparr>)
     (Some (replicate 64 0x61)) (Some (replicate 103 1)) 103 (Some (replicate 65 4)) 65
     None 0 (Some [0x31, 0x32, 0x33, 0x34]) 4 True 16 True 16 True 16 False = None \<and>
   (add_tag (apdu_init 0x03 0 0) 0x71 (replicate 64 0x61) 64 0 \<bind>
      (\<lambda>a1. add_tag a1 0x77 (replicate 103 1) 103 0) \<bind>
      (\<lambda>a2. add_tag a2 0x7c (replicate 65 4) 65 0) \<bind>
      (\<lambda>a3. Some (unat (lc a3)))) = Some 238 \<and>
   length (field_bytes 0x73 [0x31, 0x32, 0x33, 0x34] 4 12) = 18"
  by (simp add: ykhsmauth_calculate_def calculate_invalid_def label_invalid_def
      calculate_apdu_def add_tag_store field_bytes_def encode_len_def
      store_at_def apdu_init_def APDU_DATA_LEN_def yubico_headers_def)

section \<open>C8: a failed exchange\<close>

text \<open>
  When the transmit call fails, every operation but the reset returns \<open>PCSC_ERROR\<close>;
  the reset returns the translation of the status word 0, which is never \<open>PCSC_ERROR\<close>.
\<close>

lemma send_data_failure:
  "card st (wire_bytes a) = None \<Longrightarrow> send_data st a cap = (YKHSMAUTHR_PCSC_ERROR, [], cap, 0)"
  by (simp add: send_data_def wire_bytes_def)

lemma translate_error_not_transport:
  "fst (translate_error c sw retries) \<noteq> YKHSMAUTHR_PCSC_ERROR"
  by (simp add: translate_error_def)

lemma transport_failure_siblings:
  assumes "card st = (\<lambda>_. None)"
  shows "rc (send_and_check c st a retries) = YKHSMAUTHR_PCSC_ERROR"
    and "rc (calculate_finish c st a retries) = YKHSMAUTHR_PCSC_ERROR"
    and "rc (ykhsmauth_list_keys c (Some st) list (Some n)) = YKHSMAUTHR_PCSC_ERROR"
    and "rc (ykhsmauth_get_mgmkey_retries c (Some st) True) = YKHSMAUTHR_PCSC_ERROR"
    and "\<not> get_blob_invalid c (Some st) lbl dst dst_len \<Longrightarrow>
         get_blob c i (Some st) lbl dst dst_len = Some r \<Longrightarrow> rc r = YKHSMAUTHR_PCSC_ERROR"
proof -
  from assms have f: "send_data st b cap = (YKHSMAUTHR_PCSC_ERROR, [], cap, 0)" for b cap
    by (simp add: send_data_failure)
  show "rc (send_and_check c st a retries) = YKHSMAUTHR_PCSC_ERROR"
    by (simp add: send_and_check_def f)
  show "rc (calculate_finish c st a retries) = YKHSMAUTHR_PCSC_ERROR"
    by (simp add: calculate_finish_def f)
  show "rc (ykhsmauth_list_keys c (Some st) list (Some n)) = YKHSMAUTHR_PCSC_ERROR"
    by (simp add: ykhsmauth_list_keys_def f)
  show "rc (ykhsmauth_get_mgmkey_retries c (Some st) True) = YKHSMAUTHR_PCSC_ERROR"
    by (simp add: ykhsmauth_get_mgmkey_retries_def f)
  show "\<not> get_blob_invalid c (Some st) lbl dst dst_len \<Longrightarrow>
         get_blob c i (Some st) lbl dst dst_len = Some r \<Longrightarrow> rc r = YKHSMAUTHR_PCSC_ERROR"
    by (auto simp add: get_blob_def get_blob_invalid_def label_invalid_def f
        split: option.splits Option.bind_splits)
qed

lemma reset_failure_general:
  assumes "card st = (\<lambda>_. None)" and "SW_SUCCESS c \<noteq> 0"
  shows "rc (ykhsmauth_reset c (Some st)) = fst (translate_error c 0 False)"
    and "rc (ykhsmauth_reset c (Some st)) \<noteq> YKHSMAUTHR_PCSC_ERROR"
proof -
  from assms(1) have f: "send_data st b cap = (YKHSMAUTHR_PCSC_ERROR, [], cap, 0)" for b cap
    by (simp add: send_data_failure)
  from assms(2) show r: "rc (ykhsmauth_reset c (Some st)) = fst (translate_error c 0 False)"
    by (auto simp add: ykhsmauth_reset_def f)
  show "rc (ykhsmauth_reset c (Some st)) \<noteq> YKHSMAUTHR_PCSC_ERROR"
    unfolding r by (rule translate_error_not_transport)
qed

text \<open>
  C8 fails on the code for the factory reset. When the transmit call fails,
  \<^verbatim>\<open>send_data\<close> returns \<open>PCSC_ERROR\<close> with the status word 0; \<^verbatim>\<open>ykhsmauth_reset\<close>
  tests the status word before the return code and returns the translation of 0,
  \<open>GENERIC_ERROR\<close>.
\<close>

theorem reset_transport_failure:
  "ykhsmauth_reset yubico_headers (Some \<lparr>verbose = 0, card = \<lambda>_. None\<rparr>) =
     \<lparr>rc = YKHSMAUTHR_GENERIC_ERROR, sent = [[0, 0x06, 0xde, 0xad, 0]]\<rparr>"
  by (simp add: ykhsmauth_reset_def send_data_def translate_error_def wire_bytes_def
      apdu_raw_def apdu_init_def yubico_headers_def)

section \<open>C10: the copy of get-challenge and get-public-key\<close>

text \<open>The length stored is the number of bytes copied.\<close>

lemma get_blob_length_stored:
  assumes "get_blob c i state lbl dst dst_len = Some r" and "blob_len_out r = Some n"
  shows "\<exists>bs. blob_out r = Some bs \<and> length bs = n"
proof -
  have *: "send_data st a 256 = (YKHSMAUTHR_SUCCESS, dat, recv_len, sw) \<Longrightarrow>
      min (length dat) recv_len = recv_len" for st a dat recv_len sw
    by (auto simp add: send_data_def Let_def split: option.splits if_splits)
  from assms show ?thesis
    by (auto simp add: get_blob_def * split: if_splits option.splits Option.bind_splits
        prod.splits)
qed

text \<open>
  C10 fails on the code. The caller passes a 65-byte destination (the least the argument
  check accepts) and the card answers with 100 bytes and the success status: both
  operations copy all 100 bytes to the destination and store 100 as the length.
\<close>

theorem get_blob_copies_past_capacity:
  "ykhsmauth_get_challenge yubico_headers
     (Some \<lparr>verbose = 0, card = \<lambda>_. Some (replicate 100 0xab @ [0x90, 0])\<rparr>)
     (Some [0x61]) True (Some 65) =
     Some \<lparr>rc = YKHSMAUTHR_SUCCESS, sent = [[0, 0x04, 0, 0, 3, 0x71, 1, 0x61]],
           blob_out = Some (replicate 100 0xab), blob_len_out = Some 100\<rparr> \<and>
   ykhsmauth_get_pubkey yubico_headers
     (Some \<lparr>verbose = 0, card = \<lambda>_. Some (replicate 100 0xab @ [0x90, 0])\<rparr>)
     (Some [0x61]) True (Some 65) =
     Some \<lparr>rc = YKHSMAUTHR_SUCCESS, sent = [[0, 0x0a, 0, 0, 3, 0x71, 1, 0x61]],
           blob_out = Some (replicate 100 0xab), blob_len_out = Some 100\<rparr>"
  by (simp add: ykhsmauth_get_challenge_def ykhsmauth_get_pubkey_def get_blob_def
      get_blob_invalid_def label_invalid_def add_tag_store field_bytes_def encode_len_def
      store_at_def send_data_def wire_bytes_def apdu_raw_def apdu_init_def APDU_DATA_LEN_def
      nth_append yubico_headers_def)

section \<open>The list loop against the record format\<close>

lemma fill_from_Nil [simp]: "fill_from arr k [] = arr"
  by (rule ext) (auto simp add: fill_from_def)

lemma fill_from_Cons: "fill_from (arr(k := e)) (Suc k) es = fill_from arr k (e # es)"
  by (rule ext) (auto simp add: fill_from_def nth_Cons' Suc_diff_le)

lemma payload_decomp:
  assumes "i + 1 < recv_len" and "recv_len \<le> length dat"
  shows "drop i (take recv_len dat) =
           dat ! i # dat ! (i + 1) # drop (i + 2) (take recv_len dat)"
proof -
  let ?p = "take recv_len dat"
  from assms have i: "i < length ?p" and si: "Suc i < length ?p" by simp_all
  have "drop i ?p = ?p ! i # drop (Suc i) ?p"
    by (rule Cons_nth_drop_Suc[OF i, symmetric])
  also have "drop (Suc i) ?p = ?p ! Suc i # drop (Suc (Suc i)) ?p"
    by (rule Cons_nth_drop_Suc[OF si, symmetric])
  finally show ?thesis using assms by simp
qed

lemma split_records_tiny: "length p \<le> 1 \<Longrightarrow> split_records c p = ([], p)"
proof (cases p)
  case Nil
  then show ?thesis by simp
next
  case (Cons a q)
  assume "length p \<le> 1"
  with Cons have "q = []" by simp
  with Cons show ?thesis by simp
qed

lemma split_records_short:
  assumes "\<not> i + 1 < recv_len" and "recv_len \<le> length dat" and "i \<le> recv_len"
  shows "split_records c (drop i (take recv_len dat)) = ([], drop i (take recv_len dat))"
    and "length (drop i (take recv_len dat)) \<le> 1"
    and "recv_len - length (drop i (take recv_len dat)) = i"
proof -
  from assms show l: "length (drop i (take recv_len dat)) \<le> 1" by simp
  then show "split_records c (drop i (take recv_len dat)) = ([], drop i (take recv_len dat))"
    by (rule split_records_tiny)
  from assms show "recv_len - length (drop i (take recv_len dat)) = i" by simp
qed

lemma entry_of_body:
  assumes "3 \<le> n" and "i + 2 + n \<le> recv_len" and "recv_len \<le> length dat"
  shows "entry_of c (take n (drop (i + 2) (take recv_len dat))) =
     \<lparr>entry_algo = dat ! (i + 2), entry_touch = dat ! (i + 3),
      entry_label = take (n - 3) (drop (i + 4) dat) @ replicate (LABEL_SIZE c - (n - 3)) 0,
      entry_ctr = dat ! (i + 4 + (n - 3))\<rparr>"
proof -
  let ?b = "take n (drop (i + 2) (take recv_len dat))"
  from assms have len: "length ?b = n" by simp
  from assms have b: "?b = take n (drop (i + 2) dat)"
    by (simp add: drop_take min_def)
  have nth: "?b ! k = dat ! (i + 2 + k)" if "k < n" for k
    unfolding b using that assms by simp
  have "drop 2 (take n (drop (i + 2) dat)) = take (n - 2) (drop 2 (drop (i + 2) dat))"
    by (rule drop_take)
  also have "drop 2 (drop (i + 2) dat) = drop (i + 4) dat"
  proof -
    have "2 + (i + 2) = i + 4" by simp
    then show ?thesis by (simp only: drop_drop)
  qed
  finally have "take (n - 3) (drop 2 ?b) = take (n - 3) (take (n - 2) (drop (i + 4) dat))"
    unfolding b by simp
  then have lab: "take (n - 3) (drop 2 ?b) = take (n - 3) (drop (i + 4) dat)"
    by (simp add: min_def)
  from assms(1) have idx: "i + 2 + (n - 1) = i + 4 + (n - 3)" "i + 2 + 1 = i + 3" by simp_all
  from assms(1) have "0 < n" "1 < n" "n - 1 < n" by simp_all
  from nth[OF this(1)] nth[OF this(2)] nth[OF this(3)]
  have "?b ! 0 = dat ! (i + 2)" "?b ! 1 = dat ! (i + 3)" "?b ! (n - 1) = dat ! (i + 4 + (n - 3))"
    by (simp_all only: idx add_0_right)
  then show ?thesis
    unfolding entry_of_def len lab by simp
qed

lemma split_records_step:
  assumes "i + 1 < recv_len" and "recv_len \<le> length dat"
  shows "split_records c (drop i (take recv_len dat)) =
    (if dat ! i = YKHSMAUTH_TAG_LABEL_LIST c \<and> 3 \<le> unat (dat ! (i + 1)) \<and>
        unat (dat ! (i + 1)) - 3 \<le> LABEL_SIZE c \<and> i + 2 + unat (dat ! (i + 1)) \<le> recv_len
     then (case split_records c (drop (i + 2 + unat (dat ! (i + 1))) (take recv_len dat)) of
             (es, r) \<Rightarrow>
               (\<lparr>entry_algo = dat ! (i + 2), entry_touch = dat ! (i + 3),
                 entry_label = take (unat (dat ! (i + 1)) - 3) (drop (i + 4) dat) @
                               replicate (LABEL_SIZE c - (unat (dat ! (i + 1)) - 3)) 0,
                 entry_ctr = dat ! (i + 4 + (unat (dat ! (i + 1)) - 3))\<rparr> # es, r))
     else ([], drop i (take recv_len dat)))"
proof -
  let ?n = "unat (dat ! (i + 1))"
  let ?rest = "drop (i + 2) (take recv_len dat)"
  note dec = payload_decomp[OF assms]
  from assms have lr: "length ?rest = recv_len - (i + 2)" by simp
  from assms have fits: "?n \<le> length ?rest \<longleftrightarrow> i + 2 + ?n \<le> recv_len"
    unfolding lr by auto
  have dd: "drop ?n ?rest = drop (i + 2 + ?n) (take recv_len dat)"
    by (simp only: drop_drop add.commute)
  show ?thesis
  proof (cases "dat ! i = YKHSMAUTH_TAG_LABEL_LIST c \<and> 3 \<le> ?n \<and>
        ?n - 3 \<le> LABEL_SIZE c \<and> i + 2 + ?n \<le> recv_len")
    case True
    then have ok: "record_ok c (dat ! i # dat ! (i + 1) # ?rest)" using fits by simp
    from True have e: "entry_of c (take ?n ?rest) =
       \<lparr>entry_algo = dat ! (i + 2), entry_touch = dat ! (i + 3),
        entry_label = take (?n - 3) (drop (i + 4) dat) @ replicate (LABEL_SIZE c - (?n - 3)) 0,
        entry_ctr = dat ! (i + 4 + (?n - 3))\<rparr>"
      using entry_of_body[of ?n i recv_len dat c] assms(2) by simp
    have "split_records c (drop i (take recv_len dat)) =
        split_records c (dat ! i # dat ! (i + 1) # ?rest)"
      by (simp only: dec[symmetric])
    also have "\<dots> = (case split_records c (drop ?n ?rest) of
        (es, r) \<Rightarrow> (entry_of c (take ?n ?rest) # es, r))"
      using ok by (simp only: split_records.simps if_True)
    finally show ?thesis using True by (simp only: dd e if_True simp_thms)
  next
    case False
    then have "\<not> record_ok c (dat ! i # dat ! (i + 1) # ?rest)" using fits by auto
    then have "split_records c (dat ! i # dat ! (i + 1) # ?rest) =
        ([], dat ! i # dat ! (i + 1) # ?rest)"
      by (simp only: split_records.simps if_False)
    then show ?thesis using False by (simp only: dec[symmetric] if_False)
  qed
qed

lemma list_loop_scan:
  "recv_len \<le> length dat \<Longrightarrow> i \<le> recv_len \<Longrightarrow> list = Some arr \<Longrightarrow>
   split_records c (drop i (take recv_len dat)) = (es, rest) \<Longrightarrow>
   list_loop c dat recv_len n list i element =
     (if es \<noteq> [] \<and> n < element + length es
      then (Inl YKHSMAUTHR_MEMORY_ERROR, Some (fill_from arr element (take (n - element) es)))
      else if length rest \<le> 1
      then (Inr (recv_len - length rest, element + length es), Some (fill_from arr element es))
      else if rest ! 0 = YKHSMAUTH_TAG_LABEL_LIST c \<and> n \<le> element + length es
      then (Inl YKHSMAUTHR_MEMORY_ERROR, Some (fill_from arr element es))
      else (Inl YKHSMAUTHR_GENERIC_ERROR, Some (fill_from arr element es)))"
proof (induction c dat recv_len n list i element arbitrary: arr es rest rule: list_loop.induct)
  case (1 c dat recv_len n list i element)
  let ?len = "unat (dat ! (i + 1))"
  let ?E = "\<lparr>entry_algo = dat ! (i + 2), entry_touch = dat ! (i + 3),
             entry_label = take (?len - 3) (drop (i + 4) dat) @
                           replicate (LABEL_SIZE c - (?len - 3)) 0,
             entry_ctr = dat ! (i + 4 + (?len - 3))\<rparr>"
  note len = \<open>recv_len \<le> length dat\<close> and ile = \<open>i \<le> recv_len\<close> and l = \<open>list = Some arr\<close>
    and sp = \<open>split_records c (drop i (take recv_len dat)) = (es, rest)\<close>
  show ?case
  proof (cases "i + 1 < recv_len")
    case False
    note S = split_records_short(1)[OF False len ile, of c] split_records_short(2,3)[OF False len ile]
    from sp S(1) have es: "es = []" and rest: "rest = drop i (take recv_len dat)" by simp_all
    have short: "length rest \<le> Suc 0" and at: "recv_len - length rest = i"
      unfolding rest using S(2) S(3) by simp_all
    from False show ?thesis
      by (subst list_loop.simps) (simp add: es short at l)
  next
    case more: True
    note step = split_records_step[OF more len, of c]
    note dec = payload_decomp[OF more len]
    show ?thesis
    proof (cases "dat ! i = YKHSMAUTH_TAG_LABEL_LIST c")
      case False
      with sp step have es: "es = []" and rest: "rest = drop i (take recv_len dat)" by simp_all
      have r0: "rest ! 0 = dat ! i" "\<not> length rest \<le> Suc 0" unfolding rest dec by simp_all
      from more False show ?thesis
        by (subst list_loop.simps) (simp add: es r0 l)
    next
      case tag: True
      show ?thesis
      proof (cases "i + 2 + ?len > recv_len \<or> ?len < 3 \<or> ?len - 3 > LABEL_SIZE c")
        case True
        with sp step have es: "es = []" and rest: "rest = drop i (take recv_len dat)"
          by (auto simp add: not_le)
        have r0: "rest ! 0 = dat ! i" "\<not> length rest \<le> Suc 0" unfolding rest dec by simp_all
        from more tag True show ?thesis
          by (subst list_loop.simps) (auto simp add: es r0 l)
      next
        case good: False
        obtain es' where sp': "split_records c (drop (i + 2 + ?len) (take recv_len dat)) = (es', rest)"
          and es: "es = ?E # es'"
          using sp step tag good by (auto simp add: not_le not_less split: prod.splits)
        from good have next_i: "i + 4 + (?len - 3) + 1 = i + 2 + ?len" by simp
        show ?thesis
        proof (cases "n \<le> element")
          case True
          with more tag show ?thesis
            by (subst list_loop.simps) (simp add: es l)
        next
          case room: False
          from good have ile': "i + 4 + (?len - 3) + 1 \<le> recv_len" by simp
          note IH = "1.IH"(2)[OF more tag l room good len ile' refl sp'[folded next_i]]
          from room have "n - element = Suc (n - (element + 1))" by simp
          then have tk: "?E # take (n - (element + 1)) es' = take (n - element) es"
            unfolding es by (simp only: take_Suc_Cons)
          have step_eq: "list_loop c dat recv_len n list i element =
              list_loop c dat recv_len n (Some (arr(element := ?E)))
                 (i + 4 + (?len - 3) + 1) (element + 1)"
            using more tag room good by (subst list_loop.simps) (simp add: l)
          from room have cond: "(es' \<noteq> [] \<and> n < element + length es) =
              (es \<noteq> [] \<and> n < element + length es)"
            unfolding es by auto
          have cnt: "element + 1 + length es' = element + length es"
            unfolding es by simp
          have fill: "fill_from (arr(element := ?E)) (element + 1) xs =
              fill_from arr element (?E # xs)" for xs
            using fill_from_Cons[of arr element ?E xs] by (simp only: Suc_eq_plus1)
          show ?thesis
            unfolding step_eq IH
            by (simp only: cond cnt fill tk es[symmetric])
        qed
      qed
    qed
  qed
qed

lemma split_records_rest_length: "split_records c p = (es, rest) \<Longrightarrow> length rest \<le> length p"
proof (induction c p arbitrary: es rest rule: split_records.induct)
  case (1 c t l rest')
  show ?case
  proof (cases "record_ok c (t # l # rest')")
    case True
    from "1.prems" True
    have "(case split_records c (drop (unat l) rest') of
              (es, r) \<Rightarrow> (entry_of c (take (unat l) rest') # es, r)) = (es, rest)"
      by (simp only: split_records.simps if_True)
    then obtain es' where "split_records c (drop (unat l) rest') = (es', rest)"
      by (auto split: prod.splits)
    from "1.IH"[OF True this] show ?thesis by simp
  next
    case False
    with "1.prems" have "([], t # l # rest') = (es, rest)"
      by (simp only: split_records.simps if_False)
    then show ?thesis by auto
  qed
qed simp_all

lemma chain_records_tiny: "length p \<le> 1 \<Longrightarrow> chain_records c p = (0, p)"
proof (cases p)
  case Nil
  then show ?thesis by simp
next
  case (Cons a q)
  assume "length p \<le> 1"
  with Cons have "q = []" by simp
  with Cons show ?thesis by simp
qed

lemma chain_records_step:
  assumes "i + 1 < recv_len" and "recv_len \<le> length dat"
  shows "chain_records c (drop i (take recv_len dat)) =
    (if dat ! i = YKHSMAUTH_TAG_LABEL_LIST c \<and> i + 2 + unat (dat ! (i + 1)) \<le> recv_len
     then (case chain_records c (drop (i + 2 + unat (dat ! (i + 1))) (take recv_len dat)) of
             (k, r) \<Rightarrow> (Suc k, r))
     else (0, drop i (take recv_len dat)))"
proof -
  let ?n = "unat (dat ! (i + 1))"
  let ?rest = "drop (i + 2) (take recv_len dat)"
  note dec = payload_decomp[OF assms]
  from assms have lr: "length ?rest = recv_len - (i + 2)" by simp
  from assms have fits: "?n \<le> length ?rest \<longleftrightarrow> i + 2 + ?n \<le> recv_len"
    unfolding lr by auto
  have dd: "drop ?n ?rest = drop (i + 2 + ?n) (take recv_len dat)"
    by (simp only: drop_drop add.commute)
  have "chain_records c (drop i (take recv_len dat)) =
        chain_records c (dat ! i # dat ! (i + 1) # ?rest)"
    by (simp only: dec[symmetric])
  also have "\<dots> = (if dat ! i = YKHSMAUTH_TAG_LABEL_LIST c \<and> ?n \<le> length ?rest
      then (case chain_records c (drop ?n ?rest) of (k, r) \<Rightarrow> (Suc k, r))
      else (0, dat ! i # dat ! (i + 1) # ?rest))"
    by (simp only: chain_records.simps)
  finally show ?thesis by (simp only: fits dd dec[symmetric])
qed

lemma chain_records_rest:
  "chain_records c p = (k, r) \<Longrightarrow>
     length r \<le> length p \<and>
     (r \<noteq> [] \<longrightarrow> length r = 1 \<or> r ! 0 \<noteq> YKHSMAUTH_TAG_LABEL_LIST c \<or>
                 length r - 2 < unat (r ! 1))"
proof (induction c p arbitrary: k r rule: chain_records.induct)
  case (1 c t l rest)
  show ?case
  proof (cases "t = YKHSMAUTH_TAG_LABEL_LIST c \<and> unat l \<le> length rest")
    case True
    with "1.prems" obtain k' where "chain_records c (drop (unat l) rest) = (k', r)"
      by (auto split: prod.splits)
    from "1.IH"[OF True this] show ?thesis by auto
  next
    case False
    with "1.prems" have "r = t # l # rest" by auto
    with False show ?thesis by auto
  qed
qed auto

lemma split_all_chain:
  "split_records c p = (es, []) \<Longrightarrow> chain_records c p = (length es, [])"
proof (induction c p arbitrary: es rule: split_records.induct)
  case (1 c t l rest)
  show ?case
  proof (cases "record_ok c (t # l # rest)")
    case True
    from "1.prems" True
    have "(case split_records c (drop (unat l) rest) of
              (es, r) \<Rightarrow> (entry_of c (take (unat l) rest) # es, r)) = (es, [])"
      by (simp only: split_records.simps if_True)
    then obtain es' where sp: "split_records c (drop (unat l) rest) = (es', [])"
      and es: "es = entry_of c (take (unat l) rest) # es'"
      by (auto split: prod.splits)
    from "1.IH"[OF True sp] True show ?thesis by (simp add: es)
  next
    case False
    with "1.prems" have "([], t # l # rest) = (es, [])"
      by (simp only: split_records.simps if_False)
    then show ?thesis by simp
  qed
qed simp_all

lemma list_loop_chain:
  "recv_len \<le> length dat \<Longrightarrow> i \<le> recv_len \<Longrightarrow> list = None \<Longrightarrow>
   chain_records c (drop i (take recv_len dat)) = (k, r) \<Longrightarrow>
   list_loop c dat recv_len n list i element =
     (if length r \<le> 1 then (Inr (recv_len - length r, element + k), None)
      else if r ! 0 = YKHSMAUTH_TAG_LABEL_LIST c
      then (Inr (recv_len - length r + 2 + unat (r ! 1), element + k + 1), None)
      else (Inl YKHSMAUTHR_GENERIC_ERROR, None))"
proof (induction c dat recv_len n list i element arbitrary: k r rule: list_loop.induct)
  case (1 c dat recv_len n list i element)
  let ?len = "unat (dat ! (i + 1))"
  note len = \<open>recv_len \<le> length dat\<close> and ile = \<open>i \<le> recv_len\<close> and l = \<open>list = None\<close>
    and ch = \<open>chain_records c (drop i (take recv_len dat)) = (k, r)\<close>
  show ?case
  proof (cases "i + 1 < recv_len")
    case False
    note S = split_records_short(2,3)[OF False len ile]
    from ch chain_records_tiny[OF S(1), of c] have k: "k = 0" and r: "r = drop i (take recv_len dat)"
      by simp_all
    have short: "length r \<le> Suc 0" and at: "recv_len - length r = i"
      unfolding r using S by simp_all
    from False show ?thesis
      by (subst list_loop.simps) (simp add: k short at l)
  next
    case more: True
    note step = chain_records_step[OF more len, of c]
    note dec = payload_decomp[OF more len]
    show ?thesis
    proof (cases "dat ! i = YKHSMAUTH_TAG_LABEL_LIST c")
      case False
      with ch step have k: "k = 0" and r: "r = drop i (take recv_len dat)" by simp_all
      have r0: "r ! 0 = dat ! i" "\<not> length r \<le> Suc 0" unfolding r dec by simp_all
      from more False show ?thesis
        by (subst list_loop.simps) (simp add: k r0 l)
    next
      case tag: True
      show ?thesis
      proof (cases "i + 2 + ?len \<le> recv_len")
        case fits: True
        obtain k' where ch': "chain_records c (drop (i + 2 + ?len) (take recv_len dat)) = (k', r)"
          and k: "k = Suc k'"
          using ch step tag fits by (auto split: prod.splits)
        note IH = "1.IH"(1)[OF more tag l len fits refl ch']
        have step_eq: "list_loop c dat recv_len n list i element =
            list_loop c dat recv_len n None (i + 2 + ?len) (element + 1)"
          using more tag by (subst list_loop.simps) (simp add: l)
        show ?thesis unfolding step_eq IH by (simp add: k)
      next
        case over: False
        with ch step have k: "k = 0" and r: "r = drop i (take recv_len dat)" by simp_all
        have r0: "r ! 0 = dat ! i" "r ! Suc 0 = dat ! Suc i" "\<not> length r \<le> Suc 0"
          unfolding r dec by simp_all
        from more len have lr: "recv_len - length r = i" unfolding r by simp
        have step_eq: "list_loop c dat recv_len n list i element =
            list_loop c dat recv_len n None (i + 2 + ?len) (element + 1)"
          using more tag by (subst list_loop.simps) (simp add: l)
        from over have stop: "list_loop c dat recv_len n None (i + 2 + ?len) (element + 1) =
            (Inr (i + 2 + ?len, element + 1), None)"
          by (subst list_loop.simps) simp
        show ?thesis
          unfolding step_eq stop using tag by (simp add: k r0 lr)
      qed
    qed
  qed
qed

lemma list_keys_count_only:
  assumes ex: "send_data st (apdu_init (YKHSMAUTH_INS_LIST c) 0 0) 1024 =
                 (YKHSMAUTHR_SUCCESS, dat, recv_len, SW_SUCCESS c)"
    and ch: "chain_records c (take recv_len dat) = (k, r)"
  shows "ykhsmauth_list_keys c (Some st) None (Some n) =
      \<lparr>rc = (if r = [] then YKHSMAUTHR_SUCCESS else YKHSMAUTHR_GENERIC_ERROR),
       sent = [wire_bytes (apdu_init (YKHSMAUTH_INS_LIST c) 0 0)],
       list_out = None,
       list_items_out = (if length r \<le> 1 then Some k
                         else if r ! 0 = YKHSMAUTH_TAG_LABEL_LIST c then Some (k + 1)
                         else None)\<rparr>"
proof -
  from send_data_SUCCESS_D(3)[OF ex] have len: "recv_len \<le> length dat" .
  from ch have ch0: "chain_records c (drop 0 (take recv_len dat)) = (k, r)" by simp
  note loop = list_loop_chain[OF len le0 refl ch0, of n 0]
  note R = chain_records_rest[OF ch]
  from R len have rl: "length r \<le> recv_len" by simp
  show ?thesis
  proof (cases "length r \<le> 1")
    case True
    with rl have "recv_len - length r \<noteq> recv_len \<longleftrightarrow> r \<noteq> []"
      by (cases r) auto
    with True show ?thesis
      by (simp add: ykhsmauth_list_keys_def ex loop)
  next
    case False
    then have ne: "r \<noteq> []" and two: "2 \<le> length r" by auto
    show ?thesis
    proof (cases "r ! 0 = YKHSMAUTH_TAG_LABEL_LIST c")
      case True
      with R ne False have "length r - 2 < unat (r ! 1)" by auto
      with rl two have "recv_len - length r + 2 + unat (r ! 1) \<noteq> recv_len" by simp
      with True False ne show ?thesis
        by (simp add: ykhsmauth_list_keys_def ex loop)
    next
      case wrong: False
      with False ne show ?thesis
        by (simp add: ykhsmauth_list_keys_def ex loop)
    qed
  qed
qed

section \<open>C5: parsing the list answer\<close>

text \<open>
  C5 as stated fails in two ways. First, the capacity is tested before the length of a
  record: with capacity 1 and an answer of one well-formed record followed by a record of
  declared length 0, the operation returns \<open>MEMORY_ERROR\<close>, not \<open>GENERIC_ERROR\<close>.
  Second, with a null output array the lengths are not checked at all: an answer whose only
  record has length 2 is accepted and counted.
\<close>

theorem list_keys_first_fault_counterexample:
  "rc (ykhsmauth_list_keys yubico_headers
         (Some \<lparr>verbose = 0, card = \<lambda>_. Some [0x72, 3, 38, 1, 7, 0x72, 0, 0x90, 0]\<rparr>)
         (Some (\<lambda>_. \<lparr>entry_algo = 0, entry_touch = 0, entry_label = [], entry_ctr = 0\<rparr>))
         (Some 1)) = YKHSMAUTHR_MEMORY_ERROR \<and>
   ykhsmauth_list_keys yubico_headers
         (Some \<lparr>verbose = 0, card = \<lambda>_. Some [0x72, 2, 38, 1, 0x90, 0]\<rparr>) None (Some 0) =
     \<lparr>rc = YKHSMAUTHR_SUCCESS, sent = [[0, 5, 0, 0, 0]], list_out = None,
      list_items_out = Some 1\<rparr>"
  by (simp add: ykhsmauth_list_keys_def send_data_def list_loop.simps wire_bytes_def apdu_raw_def
      apdu_init_def yubico_headers_def)

text \<open>
  C5, amended. Let the exchange succeed.

  With a null output array nothing is stored and no capacity is read. Let \<open>k\<close> records
  be passed over (each with the list-entry tag and a declared length within the remaining
  bytes) and \<open>r\<close> be the bytes left after them. The operation returns \<open>SUCCESS\<close> with
  the exact count \<open>k\<close> when nothing is left, and \<open>GENERIC_ERROR\<close> otherwise, that is
  when a single trailing byte remains, a tag is not the list-entry tag, or a declared length
  exceeds the remaining bytes. A declared length below 3 or a label over the label capacity
  is not checked in this mode. On a payload of well-formed records only, \<open>k\<close> is their
  number.

  With a non-null output array of capacity \<open>n\<close>, let \<open>es\<close> be the well-formed records
  the payload starts with and \<open>rest\<close> the bytes left where no well-formed record starts
  (a record whose declared length exceeds the remaining bytes, is below 3 or puts the label
  over the label capacity, a tag that is not the list-entry tag, or a single trailing byte).
  The operation stores the first \<open>min n (length es)\<close> entries in slots 0, 1, ... in
  order, each with algorithm, touch, zero-padded label and counter taken from the record in
  that order, and writes no slot at or beyond \<open>n\<close>. It returns \<open>MEMORY_ERROR\<close> when
  \<open>es\<close> has more than \<open>n\<close> records; otherwise \<open>SUCCESS\<close> with the exact count
  \<open>length es\<close> when nothing is left; otherwise \<open>GENERIC_ERROR\<close>, except that it
  returns \<open>MEMORY_ERROR\<close> when exactly \<open>n\<close> records were stored and the rest begins
  with the list-entry tag and a length byte, the capacity being tested before the length.
\<close>

theorem list_keys_scan:
  assumes ex: "send_data st (apdu_init (YKHSMAUTH_INS_LIST c) 0 0) 1024 =
                 (YKHSMAUTHR_SUCCESS, dat, recv_len, SW_SUCCESS c)"
    and sp: "split_records c (take recv_len dat) = (es, rest)"
    and ch: "chain_records c (take recv_len dat) = (k, r)"
  shows "ykhsmauth_list_keys c (Some st) (Some arr) (Some n) =
      \<lparr>rc = (if n < length es then YKHSMAUTHR_MEMORY_ERROR
             else if rest = [] then YKHSMAUTHR_SUCCESS
             else if 2 \<le> length rest \<and> rest ! 0 = YKHSMAUTH_TAG_LABEL_LIST c \<and> length es = n
             then YKHSMAUTHR_MEMORY_ERROR
             else YKHSMAUTHR_GENERIC_ERROR),
       sent = [wire_bytes (apdu_init (YKHSMAUTH_INS_LIST c) 0 0)],
       list_out = Some (fill_from arr 0 (take n es)),
       list_items_out = (if length es \<le> n \<and> length rest \<le> 1 then Some (length es) else None)\<rparr> \<and>
     (\<forall>j. n \<le> j \<longrightarrow> fill_from arr 0 (take n es) j = arr j) \<and>
     (\<forall>j. j < n \<and> j < length es \<longrightarrow> fill_from arr 0 (take n es) j = es ! j) \<and>
     ykhsmauth_list_keys c (Some st) None (Some n) =
      \<lparr>rc = (if r = [] then YKHSMAUTHR_SUCCESS else YKHSMAUTHR_GENERIC_ERROR),
       sent = [wire_bytes (apdu_init (YKHSMAUTH_INS_LIST c) 0 0)],
       list_out = None,
       list_items_out = (if length r \<le> 1 then Some k
                         else if r ! 0 = YKHSMAUTH_TAG_LABEL_LIST c then Some (k + 1)
                         else None)\<rparr> \<and>
     (r \<noteq> [] \<longrightarrow> length r = 1 \<or> r ! 0 \<noteq> YKHSMAUTH_TAG_LABEL_LIST c \<or>
                 length r - 2 < unat (r ! 1)) \<and>
     (rest = [] \<longrightarrow> r = [] \<and> k = length es)"
proof -
  from send_data_SUCCESS_D(3)[OF ex] have len: "recv_len \<le> length dat" .
  note null = list_keys_count_only[OF ex ch, of n]
  from chain_records_rest[OF ch]
  have left: "r \<noteq> [] \<longrightarrow> length r = 1 \<or> r ! 0 \<noteq> YKHSMAUTH_TAG_LABEL_LIST c \<or>
                 length r - 2 < unat (r ! 1)"
    by simp
  have same: "rest = [] \<longrightarrow> r = [] \<and> k = length es"
    using split_all_chain[of c "take recv_len dat" es] sp ch by auto
  from sp have sp0: "split_records c (drop 0 (take recv_len dat)) = (es, rest)" by simp
  note loop = list_loop_scan[OF len le0 refl sp0, of n arr 0]
  from split_records_rest_length[OF sp] len have rl: "length rest \<le> recv_len" by simp
  have fill1: "\<forall>j. n \<le> j \<longrightarrow> fill_from arr 0 (take n es) j = arr j"
    and fill2: "\<forall>j. j < n \<and> j < length es \<longrightarrow> fill_from arr 0 (take n es) j = es ! j"
    by (auto simp add: fill_from_def)
  have main: "ykhsmauth_list_keys c (Some st) (Some arr) (Some n) =
      \<lparr>rc = (if n < length es then YKHSMAUTHR_MEMORY_ERROR
             else if rest = [] then YKHSMAUTHR_SUCCESS
             else if 2 \<le> length rest \<and> rest ! 0 = YKHSMAUTH_TAG_LABEL_LIST c \<and> length es = n
             then YKHSMAUTHR_MEMORY_ERROR
             else YKHSMAUTHR_GENERIC_ERROR),
       sent = [wire_bytes (apdu_init (YKHSMAUTH_INS_LIST c) 0 0)],
       list_out = Some (fill_from arr 0 (take n es)),
       list_items_out = (if length es \<le> n \<and> length rest \<le> 1 then Some (length es) else None)\<rparr>"
  proof (cases "n < length es")
    case True
    then have "es \<noteq> []" by auto
    with True show ?thesis
      by (simp add: ykhsmauth_list_keys_def ex loop)
  next
    case fits: False
    then have tk: "take n es = es" by simp
    show ?thesis
    proof (cases "length rest \<le> 1")
      case True
      with rl have "recv_len - length rest \<noteq> recv_len \<longleftrightarrow> rest \<noteq> []"
        by (cases rest) auto
      with True fits show ?thesis
        by (simp add: ykhsmauth_list_keys_def ex loop tk)
    next
      case False
      then have "rest \<noteq> []" "2 \<le> length rest" by auto
      with False fits show ?thesis
        by (auto simp add: ykhsmauth_list_keys_def ex loop tk)
    qed
  qed
  from main fill1 fill2 null left same show ?thesis by (intro conjI)
qed

theorem list_keys_scan_witness:
  "(let r = ykhsmauth_list_keys yubico_headers
              (Some \<lparr>verbose = 0, card = \<lambda>_. Some [0x72, 4, 38, 1, 0x41, 7, 0x90, 0]\<rparr>)
              (Some (\<lambda>_. \<lparr>entry_algo = 0, entry_touch = 0, entry_label = [], entry_ctr = 0\<rparr>))
              (Some 4)
    in rc r = YKHSMAUTHR_SUCCESS \<and> list_items_out r = Some 1 \<and>
       map_option (\<lambda>f. f 0) (list_out r) =
         Some \<lparr>entry_algo = 38, entry_touch = 1, entry_label = 0x41 # replicate 64 0,
               entry_ctr = 7\<rparr> \<and>
       map_option (\<lambda>f. f 1) (list_out r) =
         Some \<lparr>entry_algo = 0, entry_touch = 0, entry_label = [], entry_ctr = 0\<rparr>) \<and>
   (let r = ykhsmauth_list_keys yubico_headers
              (Some \<lparr>verbose = 0,
                     card = \<lambda>_. Some [0x72, 4, 38, 1, 0x41, 7, 0x72, 3, 39, 2, 9, 0x90, 0]\<rparr>)
              (Some (\<lambda>_. \<lparr>entry_algo = 0, entry_touch = 0, entry_label = [], entry_ctr = 0\<rparr>))
              (Some 1)
    in rc r = YKHSMAUTHR_MEMORY_ERROR \<and> list_items_out r = None \<and>
       map_option (\<lambda>f. f 0) (list_out r) =
         Some \<lparr>entry_algo = 38, entry_touch = 1, entry_label = 0x41 # replicate 64 0,
               entry_ctr = 7\<rparr> \<and>
       map_option (\<lambda>f. f 1) (list_out r) =
         Some \<lparr>entry_algo = 0, entry_touch = 0, entry_label = [], entry_ctr = 0\<rparr>) \<and>
   (let r = ykhsmauth_list_keys yubico_headers
              (Some \<lparr>verbose = 0,
                     card = \<lambda>_. Some [0x72, 4, 38, 1, 0x41, 7, 0x72, 3, 39, 2, 9, 0x90, 0]\<rparr>)
              None (Some 0)
    in rc r = YKHSMAUTHR_SUCCESS \<and> list_items_out r = Some 2 \<and> list_out r = None) \<and>
   (let r = ykhsmauth_list_keys yubico_headers
              (Some \<lparr>verbose = 0, card = \<lambda>_. Some [0x72, 9, 38, 0x90, 0]\<rparr>)
              None (Some 0)
    in rc r = YKHSMAUTHR_GENERIC_ERROR \<and> list_out r = None)"
proof -
  let ?c = yubico_headers
  let ?one = "[0x72, 4, 38, 1, 0x41, 7, 0x90, 0 :: byte]"
  let ?two = "[0x72, 4, 38, 1, 0x41, 7, 0x72, 3, 39, 2, 9, 0x90, 0 :: byte]"
  let ?bad = "[0x72, 9, 38, 0x90, 0 :: byte]"
  let ?e0 = "\<lparr>entry_algo = 0, entry_touch = 0, entry_label = [], entry_ctr = 0\<rparr>"
  let ?a = "\<lparr>entry_algo = 38, entry_touch = 1, entry_label = 0x41 # replicate 64 0, entry_ctr = 7\<rparr>"
  let ?b = "\<lparr>entry_algo = 39, entry_touch = 2, entry_label = replicate 65 0, entry_ctr = 9\<rparr>"
  have k: "SW_SUCCESS ?c = 0x9000" "YKHSMAUTH_TAG_LABEL_LIST ?c = 0x72" "LABEL_SIZE ?c = 65"
    by (simp_all add: yubico_headers_def)
  have ex1: "send_data \<lparr>verbose = 0, card = \<lambda>_. Some ?one\<rparr>
      (apdu_init (YKHSMAUTH_INS_LIST ?c) 0 0) 1024 = (YKHSMAUTHR_SUCCESS, ?one, 6, SW_SUCCESS ?c)"
    by (simp add: send_data_def k)
  have ex2: "send_data \<lparr>verbose = 0, card = \<lambda>_. Some ?two\<rparr>
      (apdu_init (YKHSMAUTH_INS_LIST ?c) 0 0) 1024 = (YKHSMAUTHR_SUCCESS, ?two, 11, SW_SUCCESS ?c)"
    by (simp add: send_data_def k)
  have ex3: "send_data \<lparr>verbose = 0, card = \<lambda>_. Some ?bad\<rparr>
      (apdu_init (YKHSMAUTH_INS_LIST ?c) 0 0) 1024 = (YKHSMAUTHR_SUCCESS, ?bad, 3, SW_SUCCESS ?c)"
    by (simp add: send_data_def k)
  have sp1: "split_records ?c (take 6 ?one) = ([?a], [])"
    by (simp add: entry_of_def k)
  have sp2: "split_records ?c (take 11 ?two) = ([?a, ?b], [])"
    by (simp add: entry_of_def k)
  have sp3: "split_records ?c (take 3 ?bad) = ([], [0x72, 9, 38])"
    by (simp add: k)
  have ch1: "chain_records ?c (take 6 ?one) = (1, [])"
    and ch2: "chain_records ?c (take 11 ?two) = (2, [])"
    and ch3: "chain_records ?c (take 3 ?bad) = (0, [0x72, 9, 38])"
    by (simp_all add: k)
  from list_keys_scan[OF ex1 sp1 ch1, of "\<lambda>_. ?e0" 4]
    list_keys_scan[OF ex2 sp2 ch2, of "\<lambda>_. ?e0" 1]
    list_keys_scan[OF ex2 sp2 ch2, of "\<lambda>_. ?e0" 0]
    list_keys_scan[OF ex3 sp3 ch3, of "\<lambda>_. ?e0" 0]
  show ?thesis
    by (simp add: fill_from_def)
qed

end
